theory Spec2Isabelle
  imports Complex_Main "HOL-Library.Log_Nat"
begin

section \<open>Python numbers\<close>

text \<open>
  Python integers are unbounded and are modelled by \<^typ>\<open>int\<close>.  A Python float is an
  IEEE 754 binary64 number; a finite one is modelled by the rational it denotes, and
  every arithmetic operation rounds the exact result to the nearest double, ties to
  the even significand.  \<open>ilog2 x\<close> is the binary exponent of a positive rational,
  \<open>rhe\<close> rounds to the nearest integer with ties to even, and \<open>fl\<close> rounds to 53
  significant bits, with the fixed exponent of the subnormal range below
  \<open>2 powi - 1022\<close>.
\<close>

definition ilog2 :: "rat \<Rightarrow> int" where
  "ilog2 x = (if 1 \<le> x then int (floorlog 2 (nat \<lfloor>x\<rfloor>)) - 1
              else - int (floorlog 2 (nat (\<lceil>1 / x\<rceil> - 1))))"

definition rhe :: "rat \<Rightarrow> int" where
  "rhe y = (let f = \<lfloor>y\<rfloor>; d = y - of_int f
            in if d < 1 / 2 then f else if 1 / 2 < d then f + 1
               else if even f then f else f + 1)"

definition fl :: "rat \<Rightarrow> rat" where
  "fl x = (if x = 0 then 0
           else let a = \<bar>x\<bar>; e = max (ilog2 a) (- 1022); u = 2 powi (e - 52)
                in sgn x * of_int (rhe (a / u)) * u)"

text \<open>The exponent of the unit in the last place of the double nearest to a positive \<open>x\<close>.\<close>

definition fexp :: "rat \<Rightarrow> int" where
  "fexp x = max (ilog2 x) (- 1022) - 52"

text \<open>The exceptions that the body of \<open>run\<close> can raise; all are caught by its
  \<open>except Exception\<close> clause, which emits \<open>str(e)\<close> on the error signal.\<close>

datatype exn = OverflowError string | IndexError string | OSError string

fun str_exn :: "exn \<Rightarrow> string" where
  "str_exn (OverflowError msg) = msg"
| "str_exn (IndexError msg) = msg"
| "str_exn (OSError msg) = msg"

text \<open>\<open>float(n)\<close>, as applied implicitly to an integer operand of a float operation:
  the nearest double, or \<open>OverflowError\<close> when that exceeds the largest double.\<close>

definition float_of_int :: "int \<Rightarrow> exn + rat" where
  "float_of_int n =
     (if 2 ^ 1024 \<le> \<bar>fl (of_int n)\<bar> then Inl (OverflowError ''int too large to convert to float'')
      else Inr (fl (of_int n)))"

text \<open>\<open>a / b\<close> on two integers is the correctly rounded quotient.  Every divisor in
  this program is a non-zero literal or the positive loop bound.\<close>

definition int_truediv :: "int \<Rightarrow> int \<Rightarrow> rat" where
  "int_truediv a b = fl (of_int a / of_int b)"

definition float_add :: "rat \<Rightarrow> rat \<Rightarrow> rat" where
  "float_add x y = fl (x + y)"

definition float_mul :: "rat \<Rightarrow> rat \<Rightarrow> rat" where
  "float_mul x y = fl (x * y)"

definition float_truediv :: "rat \<Rightarrow> rat \<Rightarrow> rat" where
  "float_truediv x y = fl (x / y)"

text \<open>\<open>x // y\<close> on floats is the floor of the quotient.  The only divisor in this
  program is \<open>4\<close>, a power of two, for which the quotient and its floor are doubles
  themselves, so that no rounding takes place.\<close>

definition float_floordiv :: "rat \<Rightarrow> rat \<Rightarrow> rat" where
  "float_floordiv x y = of_int \<lfloor>x / y\<rfloor>"

text \<open>\<open>int(x)\<close> on a float truncates towards zero.\<close>

definition int_of_float :: "rat \<Rightarrow> int" where
  "int_of_float x = (if 0 \<le> x then \<lfloor>x\<rfloor> else \<lceil>x\<rceil>)"

section \<open>The worker's configuration\<close>

record worker =
  tempo :: int
  pattern :: string
  length_sec :: int
  save_path :: string
  crazy :: int

text \<open>\<open>GeneratorWorker.__init__\<close>: the field \<open>self.length\<close> is \<open>length_sec\<close> here.\<close>

definition GeneratorWorker_init :: "int \<Rightarrow> string \<Rightarrow> int \<Rightarrow> string \<Rightarrow> int \<Rightarrow> worker" where
  "GeneratorWorker_init tempo_bpm pattern_type length_s save_to craziness =
     \<lparr>tempo = tempo_bpm, pattern = pattern_type, length_sec = min length_s 60,
      save_path = save_to, crazy = max (- 10) (min 10 craziness)\<rparr>"

section \<open>The validator: \<open>MainWindow.start_generation\<close>\<close>

text \<open>
  The two calls of \<open>int(text)\<close> are library calls; their outcomes are the inputs of
  the model: \<open>Inr n\<close> when the text parses as the integer \<open>n\<close>, \<open>Inl msg\<close> when
  \<open>int\<close> raises \<open>ValueError(msg)\<close>.  The tempo is parsed first.  The outcome is either
  the warning box (title and message) after which the method returns, or the worker
  that is constructed and started on its thread.
\<close>

datatype ui_outcome = Warning string string | Started worker

definition start_generation ::
  "string + int \<Rightarrow> string + int \<Rightarrow> string \<Rightarrow> string \<Rightarrow> int \<Rightarrow> ui_outcome" where
  "start_generation tempo_in length_in save_to type_text slider =
     (case tempo_in of
        Inl msg \<Rightarrow> Warning ''Input Error'' msg
      | Inr tempo_v \<Rightarrow>
          (case length_in of
             Inl msg \<Rightarrow> Warning ''Input Error'' msg
           | Inr length_v \<Rightarrow>
               if length_v < 1 \<or> length_v > 60
               then Warning ''Input Error'' ''Length out of range''
               else if save_to = [] then Warning ''Input Error'' ''No save path specified''
               else Started (GeneratorWorker_init tempo_v type_text length_v save_to slider)))"

section \<open>Library calls used by the engine\<close>

text \<open>The subscript \<open>xs[i]\<close>: an index from \<open>- len(xs)\<close> up to \<open>- 1\<close> counts from the
  end, and an index outside both ranges raises.\<close>

definition py_index :: "'a list \<Rightarrow> int \<Rightarrow> exn + 'a" where
  "py_index xs i =
     (if 0 \<le> i \<and> i < int (length xs) then Inr (xs ! nat i)
      else if - int (length xs) \<le> i \<and> i < 0 then Inr (xs ! nat (i + int (length xs)))
      else Inl (IndexError ''list index out of range''))"

text \<open>\<open>d.get(k, default)\<close> on a dict literal, given as its list of items.\<close>

definition dict_get :: "('k \<times> 'v) list \<Rightarrow> 'k \<Rightarrow> 'v \<Rightarrow> 'v" where
  "dict_get d k dflt = (case map_of d k of Some v \<Rightarrow> v | None \<Rightarrow> dflt)"

text \<open>
  The module \<open>random\<close> is an injected source of draws: a sequence of naturals, each
  call consuming one.  The sequence is given by a list, which stands for the infinite
  sequence that continues with zeros.  Every finite sequence of results that the real
  generator can produce is the image of some list.
\<close>

type_synonym rng = "nat list"

definition draw :: "rng \<Rightarrow> nat \<times> rng" where
  "draw g = (case g of [] \<Rightarrow> (0, []) | d # g' \<Rightarrow> (d, g'))"

definition random_choice :: "'a list \<Rightarrow> rng \<Rightarrow> exn + ('a \<times> rng)" where
  "random_choice xs g =
     (if xs = [] then Inl (IndexError ''Cannot choose from an empty sequence'')
      else case draw g of (d, g') \<Rightarrow> Inr (xs ! (d mod length xs), g'))"

definition random_randint :: "int \<Rightarrow> int \<Rightarrow> rng \<Rightarrow> int \<times> rng" where
  "random_randint a b g = (case draw g of (d, g') \<Rightarrow> (a + int (d mod nat (b - a + 1)), g'))"

definition random_random :: "rng \<Rightarrow> rat \<times> rng" where
  "random_random g = (case draw g of (d, g') \<Rightarrow> (of_int (int d mod 2 ^ 53) / 2 ^ 53, g'))"

text \<open>
  What is appended to the part: the tempo mark, the time signature, the key, chords
  and notes, the last two with their \<open>quarterLength\<close>.  Pitches are values of the
  music library and stay abstract.
\<close>

datatype 'p element =
    MetronomeMark int
  | TimeSignature string
  | Key string string
  | Chord "'p list" rat
  | Note 'p rat

datatype signal = progress_changed int | finished string | error string

text \<open>The observable trace of a run: signals emitted and elements appended, in order.\<close>

datatype 'p action = Emit signal | Append "'p element"

fun appended :: "'p action list \<Rightarrow> 'p element list" where
  "appended [] = []"
| "appended (Append e # as) = e # appended as"
| "appended (Emit s # as) = appended as"

fun emitted :: "'p action list \<Rightarrow> signal list" where
  "emitted [] = []"
| "emitted (Emit s # as) = s # emitted as"
| "emitted (Append e # as) = emitted as"

fun progress_values :: "signal list \<Rightarrow> int list" where
  "progress_values [] = []"
| "progress_values (progress_changed p # ss) = p # progress_values ss"
| "progress_values (s # ss) = progress_values ss"

text \<open>
  The environment of a run: the music library (the pitches of a major key by tonic
  name, transposition by a named interval, serialisation of the score), the
  temporary directory and \<open>os.path.join\<close>, and the failures that the operating
  system may inject into \<open>open\<close>, \<open>write\<close> (with the number of bytes that reached the
  file before the failure) and \<open>os.replace\<close>.
\<close>

record 'p environment =
  getPitches :: "string \<Rightarrow> 'p list"
  pitch_transpose :: "string \<Rightarrow> 'p \<Rightarrow> 'p"
  streamToMidiFile :: "'p element list \<Rightarrow> string"
  gettempdir :: string
  path_join :: "string \<Rightarrow> string \<Rightarrow> string"
  open_error :: "string option"
  write_error :: "(nat \<times> string) option"
  replace_error :: "string option"

text \<open>The file system: the content of every existing file, and for every path
  whether the directory that would hold it exists.\<close>

record filesystem =
  files :: "string \<Rightarrow> string option"
  parent_exists :: "string \<Rightarrow> bool"

text \<open>\<open>midi_file.open(p, 'wb')\<close> creates or truncates the file.\<close>

definition midi_open :: "'p environment \<Rightarrow> string \<Rightarrow> filesystem \<Rightarrow> exn + filesystem" where
  "midi_open env p fs =
     (if \<not> parent_exists fs p then Inl (OSError ''No such file or directory'')
      else (case open_error env of
              Some msg \<Rightarrow> Inl (OSError msg)
            | None \<Rightarrow> Inr (fs\<lparr>files := (files fs)(p \<mapsto> [])\<rparr>)))"

text \<open>\<open>midi_file.write(); midi_file.close()\<close>: a failure leaves the bytes written so far.\<close>

definition midi_write ::
  "'p environment \<Rightarrow> string \<Rightarrow> string \<Rightarrow> filesystem \<Rightarrow> exn option \<times> filesystem" where
  "midi_write env p data fs =
     (case write_error env of
        Some (n, msg) \<Rightarrow> (Some (OSError msg), fs\<lparr>files := (files fs)(p \<mapsto> take n data)\<rparr>)
      | None \<Rightarrow> (None, fs\<lparr>files := (files fs)(p \<mapsto> data)\<rparr>))"

text \<open>\<open>os.replace(src, dst)\<close>: all or nothing; renaming a file to itself does nothing.\<close>

definition os_replace ::
  "'p environment \<Rightarrow> string \<Rightarrow> string \<Rightarrow> filesystem \<Rightarrow> exn + filesystem" where
  "os_replace env src dst fs =
     (case files fs src of
        None \<Rightarrow> Inl (OSError ''No such file or directory'')
      | Some content \<Rightarrow>
          (if \<not> parent_exists fs dst then Inl (OSError ''No such file or directory'')
           else (case replace_error env of
                   Some msg \<Rightarrow> Inl (OSError msg)
                 | None \<Rightarrow>
                     Inr (if src = dst then fs
                          else fs\<lparr>files := ((files fs)(dst \<mapsto> content))(src := None)\<rparr>))))"

section \<open>The engine: \<open>GeneratorWorker.run\<close>\<close>

text \<open>Lines 60 and 61: the number of measures.\<close>

definition measures_of :: "worker \<Rightarrow> exn + int" where
  "measures_of w =
     (case float_of_int (length_sec w * tempo w) of
        Inl e \<Rightarrow> Inl e
      | Inr product \<Rightarrow>
          (let beats_needed = float_truediv product 60
           in Inr (int_of_float (float_floordiv beats_needed 4) + 1)))"

text \<open>Line 64: \<open>int(i / measures * 100)\<close>.\<close>

definition percent :: "int \<Rightarrow> int \<Rightarrow> int" where
  "percent i measures_n = int_of_float (float_mul (int_truediv i measures_n) 100)"

text \<open>Lines 72 to 74: the chord's \<open>quarterLength\<close>.\<close>

definition chord_quarterLength :: "worker \<Rightarrow> rat" where
  "chord_quarterLength w =
     (let base_len = dict_get [(''PAD'', 4), (''CHORD'', 2), (''BRASS'', 2)] (pattern w) (1::int);
          length_factor = float_add 1 (int_truediv (- crazy w) 20)
      in max (1 / 4) (float_mul (of_int base_len) length_factor))"

text \<open>Lines 93 to 97: the note's \<open>quarterLength\<close>.\<close>

definition note_quarterLength :: "worker \<Rightarrow> rat" where
  "note_quarterLength w =
     (let duration =
            (if crazy w \<ge> 0 then float_truediv 1 (float_add 1 (int_truediv (crazy w) 10))
             else float_mul 1 (float_add 1 (int_truediv \<bar>crazy w\<bar> 10)))
      in max (1 / 8) duration)"

text \<open>
  Lines 85 to 98: the melody notes.  \<open>idx\<close> counts up, \<open>k\<close> is the number of
  iterations left.  \<open>chord_notes\<close> always has three entries, so the subscript in the
  \<open>ARP\<close> branch is in range.  The result is the trace so far and either the exception
  that ended the loop or the random source after it.
\<close>

fun melody_loop ::
  "'p environment \<Rightarrow> worker \<Rightarrow> string \<Rightarrow> 'p list \<Rightarrow> nat \<Rightarrow> nat \<Rightarrow> rng
   \<Rightarrow> 'p action list \<times> (exn + rng)" where
  "melody_loop env w ks chord_notes idx 0 g = ([], Inr g)"
| "melody_loop env w ks chord_notes idx (Suc k) g =
     (case (if pattern w = ''ARP''
            then Inr (chord_notes ! (idx mod length chord_notes), g)
            else if pattern w = ''PLUCK'' then random_choice chord_notes g
            else random_choice (getPitches env ks) g) of
        Inl e \<Rightarrow> ([], Inl e)
      | Inr (pitch, g') \<Rightarrow>
          (case melody_loop env w ks chord_notes (Suc idx) k g' of
             (acts, r) \<Rightarrow> (Append (Note pitch (note_quarterLength w)) # acts, r)))"

text \<open>
  Lines 77 to 81: the extra accent.  \<open>random.random()\<close> is only called when
  \<open>crazy > 5\<close>, the left operand of \<open>and\<close>.
\<close>

definition accent :: "'p environment \<Rightarrow> worker \<Rightarrow> 'p list \<Rightarrow> rng \<Rightarrow> 'p action list \<times> rng" where
  "accent env w chord_notes g1 =
     (if crazy w > 5
      then (case random_random g1 of
              (r, g') \<Rightarrow>
                (if r < int_truediv (crazy w - 5) 10
                 then [Append (Chord chord_notes (1 / 2))] else [], g'))
      else ([], g1))"

text \<open>
  Lines 64 to 98: one measure.  \<open>random.randint(2, 6)\<close> is called in every measure,
  since the dict literal of the note counts is built before the lookup.
\<close>

definition measure_body ::
  "'p environment \<Rightarrow> worker \<Rightarrow> string \<Rightarrow> int \<Rightarrow> nat \<Rightarrow> rng
   \<Rightarrow> 'p action list \<times> (exn + rng)" where
  "measure_body env w ks measures_n i g =
     (let pre = [Emit (progress_changed (percent (int i) measures_n))]
      in case random_choice [1, 4, 5] g of
           Inl e \<Rightarrow> (pre, Inl e)
         | Inr (degree, g1) \<Rightarrow>
             (case py_index (getPitches env ks) (degree - 1) of
                Inl e \<Rightarrow> (pre, Inl e)
              | Inr root_pitch \<Rightarrow>
                  (let chord_notes =
                         [root_pitch, pitch_transpose env ''M3'' root_pitch,
                          pitch_transpose env ''P5'' root_pitch];
                       first = [Append (Chord chord_notes (chord_quarterLength w))];
                       (extra, g2) = accent env w chord_notes g1;
                       (drawn, g3) = random_randint 2 6 g2;
                       count = dict_get [(''ARP'', 3), (''PLUCK'', 4), (''RAND'', drawn)]
                                 (pattern w) 2
                   in case melody_loop env w ks chord_notes 0 (nat count) g3 of
                        (notes, r) \<Rightarrow> (pre @ first @ extra @ notes, r))))"

text \<open>Line 63: the loop over the measures, \<open>i\<close> counting up, \<open>k\<close> iterations left.\<close>

fun measures_loop ::
  "'p environment \<Rightarrow> worker \<Rightarrow> string \<Rightarrow> int \<Rightarrow> nat \<Rightarrow> nat \<Rightarrow> rng
   \<Rightarrow> 'p action list \<times> (exn + rng)" where
  "measures_loop env w ks measures_n i 0 g = ([], Inr g)"
| "measures_loop env w ks measures_n i (Suc k) g =
     (case measure_body env w ks measures_n i g of
        (acts, Inl e) \<Rightarrow> (acts, Inl e)
      | (acts, Inr g') \<Rightarrow>
          (case measures_loop env w ks measures_n (Suc i) k g' of
             (rest, r) \<Rightarrow> (acts @ rest, r)))"

text \<open>Line 106: the staging path.\<close>

definition tmp_path :: "'p environment \<Rightarrow> string" where
  "tmp_path env = path_join env (gettempdir env) ''midgen_temp.mid''"

text \<open>Line 107: create the staging file and write the serialised data to it.  The
  worker is not an argument: the path is \<open>tmp_path\<close>, whatever the configuration.\<close>

definition write_staging ::
  "'p environment \<Rightarrow> string \<Rightarrow> filesystem \<Rightarrow> exn option \<times> filesystem" where
  "write_staging env midi_file fs =
     (case midi_open env (tmp_path env) fs of
        Inl e \<Rightarrow> (Some e, fs)
      | Inr fs1 \<Rightarrow> midi_write env (tmp_path env) midi_file fs1)"

text \<open>Lines 104 to 108: serialise the score, write it to the staging path, move it
  to the destination.  The result is the exception raised, if any, and the file
  system left behind.\<close>

definition export_midi ::
  "'p environment \<Rightarrow> worker \<Rightarrow> 'p element list \<Rightarrow> filesystem \<Rightarrow> exn option \<times> filesystem" where
  "export_midi env w score fs =
     (case write_staging env (streamToMidiFile env score) fs of
        (Some e, fs2) \<Rightarrow> (Some e, fs2)
      | (None, fs2) \<Rightarrow>
          (case os_replace env (tmp_path env) (save_path w) fs2 of
             Inl e \<Rightarrow> (Some e, fs2)
           | Inr fs3 \<Rightarrow> (None, fs3)))"

definition possible_keys :: "string list" where
  "possible_keys = [''C'', ''D'', ''E'', ''F'', ''G'', ''A'', ''B'']"

text \<open>
  The whole of \<open>run\<close>: the trace of signals and appends, and the file system after
  it.  Every exception ends the run with one \<open>error\<close> signal carrying \<open>str(e)\<close>.  The
  accelerator probe and its diagnostic print at the start have no effect on either.
  The constructors and methods of the music library are taken to return; the
  exceptions of the model are those of the arithmetic, of the subscripts and of the
  file system.
\<close>

definition run ::
  "'p environment \<Rightarrow> worker \<Rightarrow> rng \<Rightarrow> filesystem \<Rightarrow> 'p action list \<times> filesystem" where
  "run env w g fs =
     (let start = [Append (MetronomeMark (tempo w)), Append (TimeSignature ''4/4'')]
      in case random_choice possible_keys g of
           Inl e \<Rightarrow> (start @ [Emit (error (str_exn e))], fs)
         | Inr (ks, g0) \<Rightarrow>
             (let header = start @ [Append (Key ks ''major'')]
              in case measures_of w of
                   Inl e \<Rightarrow> (header @ [Emit (error (str_exn e))], fs)
                 | Inr measures_n \<Rightarrow>
                     (case measures_loop env w ks measures_n 0 (nat measures_n) g0 of
                        (acts, Inl e) \<Rightarrow> (header @ acts @ [Emit (error (str_exn e))], fs)
                      | (acts, Inr g1) \<Rightarrow>
                          (let body = header @ acts @ [Emit (progress_changed 100)]
                           in case export_midi env w (appended body) fs of
                                (Some e, fs') \<Rightarrow> (body @ [Emit (error (str_exn e))], fs')
                              | (None, fs') \<Rightarrow>
                                  (body @ [Emit (finished (save_path w))], fs')))))"

text \<open>The three appends before the loop, for the key with tonic \<open>ks\<close>.\<close>

definition header_of :: "worker \<Rightarrow> string \<Rightarrow> 'p action list" where
  "header_of w ks =
     [Append (MetronomeMark (tempo w)), Append (TimeSignature ''4/4''), Append (Key ks ''major'')]"

section \<open>Vocabulary of the specification\<close>






text \<open>The measure count in the specification's words, in exact arithmetic.\<close>

definition spec_measures :: "int \<Rightarrow> int \<Rightarrow> int" where
  "spec_measures durationSeconds tempoBpm =
     \<lfloor>rat_of_int durationSeconds * rat_of_int tempoBpm / 60 / 4\<rfloor> + 1"

text \<open>The trace of measure \<open>n\<close> of \<open>M\<close> that appends the elements \<open>es\<close>: the progress
  report first, then the appends.\<close>

definition measure_trace :: "int \<Rightarrow> nat \<times> 'p element list \<Rightarrow> 'p action list" where
  "measure_trace M = (\<lambda>(n, es). Emit (progress_changed (percent (int n) M)) # map Append es)"


fun chord_pitches :: "'p element list \<Rightarrow> 'p list list" where
  "chord_pitches [] = []"
| "chord_pitches (Chord ps d # es) = ps # chord_pitches es"
| "chord_pitches (e # es) = chord_pitches es"

fun note_pitches :: "'p element list \<Rightarrow> 'p list" where
  "note_pitches [] = []"
| "note_pitches (Note p d # es) = p # note_pitches es"
| "note_pitches (e # es) = note_pitches es"

fun note_lengths :: "'p element list \<Rightarrow> rat list" where
  "note_lengths [] = []"
| "note_lengths (Note p d # es) = d # note_lengths es"
| "note_lengths (e # es) = note_lengths es"

fun duration_ok :: "'p element \<Rightarrow> bool" where
  "duration_ok (Chord ps d) = (1 / 4 \<le> d)"
| "duration_ok (Note p d) = (1 / 8 \<le> d)"
| "duration_ok e = True"

text \<open>The append of one melody note by the worker.\<close>

definition note_action :: "worker \<Rightarrow> 'p \<Rightarrow> 'p action" where
  "note_action w p = Append (Note p (note_quarterLength w))"

section \<open>A sample run\<close>

text \<open>A concrete environment, file system and worker, on which the theorems below are
  instantiated; pitches are MIDI numbers here.  \<open>demo_measure p\<close> is the trace of one
  measure of this run, reporting the progress \<open>p\<close>.\<close>

definition demo_env :: "int environment" where
  "demo_env = \<lparr>getPitches = (\<lambda>k. [60, 62, 64, 65, 67, 69, 71, 72]),
           pitch_transpose = (\<lambda>iv p. if iv = ''M3'' then p + 4 else p + 7),
           streamToMidiFile = map (\<lambda>e. CHR ''m''),
           gettempdir = ''/tmp'',
           path_join = (\<lambda>a b. a @ ''/'' @ b),
           open_error = None, write_error = None, replace_error = None\<rparr>"

definition demo_fs :: filesystem where
  "demo_fs = \<lparr>files = Map.empty, parent_exists = (\<lambda>p. True)\<rparr>"

definition demo_worker :: worker where
  "demo_worker = GeneratorWorker_init 120 ''ARP'' 2 ''/music/out.mid'' 10"

definition demo_measure :: "int \<Rightarrow> int action list" where
  "demo_measure p =
     [Emit (progress_changed p), Append (Chord [60, 64, 67] (1 / 2)),
      Append (Chord [60, 64, 67] (1 / 2)), Append (Note 60 (1 / 2)),
      Append (Note 64 (1 / 2)), Append (Note 67 (1 / 2))]"





section \<open>Properties of rounding\<close>

text \<open>The binary exponent brackets its argument; rounding is monotone, exact on
  integers below \<open>2 ^ 53\<close> in magnitude, and off by at most half a unit in the last
  place.\<close>


lemma ilog2_bounds:
  assumes "0 < x"
  shows "2 powi (ilog2 x) \<le> x \<and> x < 2 powi (ilog2 x + 1)"
proof (cases "1 \<le> x")
  case True
  define n where "n = nat \<lfloor>x\<rfloor>"
  have n1: "0 < n" using True by (simp add: n_def)
  have fb: "2 ^ (floorlog 2 n - 1) \<le> n \<and> n < 2 ^ (floorlog 2 n)"
    using floorlog_bounds [of n 2] n1 by simp
  have "floorlog 2 n \<noteq> 0" using n1 by (simp add: floorlog_eq_zero_iff)
  then have fpos: "0 < floorlog 2 n" by simp
  have il: "ilog2 x = int (floorlog 2 n) - 1" using True by (simp add: ilog2_def n_def)
  have nx: "rat_of_nat n \<le> x" using True by (simp add: n_def)
  have xn: "x < rat_of_nat n + 1" using True by (simp add: n_def) linarith
  have "2 powi (ilog2 x) = (2::rat) ^ (floorlog 2 n - 1)"
    using fpos by (simp add: il power_int_def nat_diff_distrib' of_nat_diff)
  also have "\<dots> = rat_of_nat (2 ^ (floorlog 2 n - 1))" by simp
  also have "\<dots> \<le> rat_of_nat n" using fb by (metis of_nat_le_iff)
  finally have lo: "2 powi (ilog2 x) \<le> x" using nx by simp
  have "rat_of_nat n + 1 \<le> rat_of_nat (2 ^ (floorlog 2 n))"
    using fb by (metis Suc_leI of_nat_Suc of_nat_le_iff add.commute)
  also have "\<dots> = 2 powi (ilog2 x + 1)" by (simp add: il)
  finally show ?thesis using lo xn by simp
next
  case False
  define y where "y = 1 / x"
  define m where "m = nat (\<lceil>y\<rceil> - 1)"
  define k where "k = floorlog 2 m"
  have y1: "1 < y" using False assms by (simp add: y_def)
  have cy: "2 \<le> \<lceil>y\<rceil>" using y1 by linarith
  have m1: "0 < m" using cy by (simp add: m_def)
  have fb: "2 ^ (k - 1) \<le> m \<and> m < 2 ^ k"
    using floorlog_bounds [of m 2] m1 by (simp add: k_def)
  have "k \<noteq> 0" using m1 by (simp add: k_def floorlog_eq_zero_iff)
  then have kpos: "0 < k" by simp
  have il: "ilog2 x = - int k" using False by (simp add: ilog2_def k_def m_def y_def)
  have mm: "int m = \<lceil>y\<rceil> - 1" using cy by (simp add: m_def)
  have "\<lceil>y\<rceil> \<le> int (2 ^ k)" using fb mm by linarith
  then have "y \<le> of_int (int (2 ^ k))" by (simp only: ceiling_le_iff)
  then have yk: "y \<le> 2 ^ k" by simp
  have "int (2 ^ (k - 1)) < \<lceil>y\<rceil>" using fb mm by linarith
  then have "of_int (int (2 ^ (k - 1))) < y" by (simp only: less_ceiling_iff)
  then have ky: "2 ^ (k - 1) < y" by simp
  have p1: "2 powi (ilog2 x) = 1 / (2::rat) ^ k"
    by (simp add: il power_int_minus field_simps)
  have "1 / x \<le> 2 ^ k" using yk by (simp add: y_def)
  then have "1 / (2::rat) ^ k \<le> x"
    using assms by (simp add: field_simps)
  then have lo: "2 powi (ilog2 x) \<le> x" by (simp only: p1)
  have "ilog2 x + 1 = - int (k - 1)" using kpos by (simp add: il of_nat_diff)
  then have p2: "2 powi (ilog2 x + 1) = 1 / (2::rat) ^ (k - 1)"
    by (simp add: power_int_minus field_simps)
  have "2 ^ (k - 1) < 1 / x" using ky by (simp add: y_def)
  then have "x < 1 / (2::rat) ^ (k - 1)"
    using assms by (simp add: field_simps)
  then have "x < 2 powi (ilog2 x + 1)" by (simp only: p2)
  then show ?thesis using lo by simp
qed


lemma ilog2_mono:
  assumes "0 < x" "x \<le> y"
  shows "ilog2 x \<le> ilog2 y"
proof (rule ccontr)
  assume "\<not> ilog2 x \<le> ilog2 y"
  then have "ilog2 y + 1 \<le> ilog2 x" by simp
  then have "(2::rat) powi (ilog2 y + 1) \<le> 2 powi (ilog2 x)"
    by (intro power_int_increasing) simp_all
  moreover have "y < 2 powi (ilog2 y + 1)" using ilog2_bounds [of y] assms by simp
  moreover have "2 powi (ilog2 x) \<le> x" using ilog2_bounds [of x] assms by simp
  ultimately show False using assms by linarith
qed

lemma rhe_of_int: "rhe (of_int n) = n"
  by (simp add: rhe_def)

lemma rhe_floor: "\<lfloor>y\<rfloor> \<le> rhe y \<and> rhe y \<le> \<lfloor>y\<rfloor> + 1"
  by (simp add: rhe_def Let_def)

lemma rhe_mono:
  assumes "x \<le> y"
  shows "rhe x \<le> rhe y"
proof (cases "\<lfloor>x\<rfloor> = \<lfloor>y\<rfloor>")
  case True
  then show ?thesis using assms by (auto simp: rhe_def Let_def)
next
  case False
  then have "\<lfloor>x\<rfloor> + 1 \<le> \<lfloor>y\<rfloor>" using assms floor_mono [of x y] by linarith
  then show ?thesis using rhe_floor [of x] rhe_floor [of y] by linarith
qed

lemma rhe_err: "\<bar>of_int (rhe y) - y\<bar> \<le> 1 / 2"
proof -
  define f where "f = \<lfloor>y\<rfloor>"
  define d where "d = y - of_int f"
  have d: "0 \<le> d" "d < 1" unfolding d_def f_def by linarith+
  have r: "rhe y = (if d < 1 / 2 then f else if 1 / 2 < d then f + 1
                    else if even f then f else f + 1)"
    by (simp add: rhe_def Let_def f_def d_def)
  have "of_int (rhe y) - y = of_int (rhe y) - of_int f - d" by (simp add: d_def)
  then show ?thesis using d by (auto simp: r abs_if)
qed

lemma scale_mono:
  assumes "a \<le> b"
  shows "rat_of_int a * 2 powi e \<le> rat_of_int b * 2 powi e"
proof -
  have "rat_of_int a \<le> rat_of_int b" using assms by simp
  moreover have "0 \<le> (2::rat) powi e" by (simp add: zero_le_power_int)
  ultimately show ?thesis by (rule mult_right_mono)
qed


lemma fl_pos:
  assumes "0 < x"
  shows "fl x = of_int (rhe (x / 2 powi (fexp x))) * 2 powi (fexp x)"
  using assms by (simp add: fl_def Let_def fexp_def)

lemma fl_minus: "fl (- x) = - fl x"
  by (simp add: fl_def Let_def)

lemma pow2_pos: "0 < (2::rat) powi e"
  by (simp add: zero_less_power_int)

lemma fl_nonneg:
  assumes "0 \<le> x"
  shows "0 \<le> fl x"
proof (cases "x = 0")
  case True
  then show ?thesis by (simp add: fl_def)
next
  case False
  then have x: "0 < x" using assms by simp
  have "0 \<le> x / 2 powi (fexp x)" using x pow2_pos [of "fexp x"] by simp
  then have "rhe 0 \<le> rhe (x / 2 powi (fexp x))" by (rule rhe_mono)
  then have "0 \<le> rhe (x / 2 powi (fexp x))" using rhe_of_int [of 0] by simp
  then show ?thesis using x pow2_pos [of "fexp x"] by (simp add: fl_pos)
qed

lemma fexp_mono:
  assumes "0 < x" "x \<le> y"
  shows "fexp x \<le> fexp y"
  using ilog2_mono [OF assms] by (simp add: fexp_def)

lemma fl_upper:
  assumes "0 < x"
  shows "fl x \<le> 2 powi (fexp x + 53)"
proof -
  have "ilog2 x + 1 \<le> fexp x + 53" by (simp add: fexp_def)
  then have "(2::rat) powi (ilog2 x + 1) \<le> 2 powi (fexp x + 53)"
    by (intro power_int_increasing) simp_all
  then have "x \<le> 2 powi (fexp x + 53)" using ilog2_bounds [OF assms] by linarith
  also have "\<dots> = 2 ^ 53 * 2 powi (fexp x)" by (simp add: power_int_add)
  finally have "x / 2 powi (fexp x) \<le> of_int (2 ^ 53)"
    using pow2_pos [of "fexp x"] by (simp add: field_simps)
  then have "rhe (x / 2 powi (fexp x)) \<le> rhe (of_int (2 ^ 53))" by (rule rhe_mono)
  then have "rhe (x / 2 powi (fexp x)) \<le> 2 ^ 53" by (simp only: rhe_of_int)
  then have "rat_of_int (rhe (x / 2 powi (fexp x))) * 2 powi (fexp x)
      \<le> rat_of_int (2 ^ 53) * 2 powi (fexp x)"
    by (rule scale_mono)
  then show ?thesis by (simp add: fl_pos [OF assms] power_int_add)
qed

lemma fl_lower:
  assumes "0 < x" "- 1022 \<le> ilog2 x"
  shows "2 powi (fexp x + 52) \<le> fl x"
proof -
  have e: "fexp x + 52 = ilog2 x" using assms by (simp add: fexp_def)
  have "2 ^ 52 * 2 powi (fexp x) = (2::rat) powi (fexp x + 52)" by (simp add: power_int_add)
  also have "\<dots> \<le> x" using ilog2_bounds [OF assms(1)] by (simp add: e)
  finally have "of_int (2 ^ 52) \<le> x / 2 powi (fexp x)"
    using pow2_pos [of "fexp x"] by (simp add: field_simps)
  then have "rhe (of_int (2 ^ 52)) \<le> rhe (x / 2 powi (fexp x))" by (rule rhe_mono)
  then have "2 ^ 52 \<le> rhe (x / 2 powi (fexp x))" by (simp only: rhe_of_int)
  then have "rat_of_int (2 ^ 52) * 2 powi (fexp x)
      \<le> rat_of_int (rhe (x / 2 powi (fexp x))) * 2 powi (fexp x)"
    by (rule scale_mono)
  then show ?thesis by (simp add: fl_pos [OF assms(1)] power_int_add)
qed

lemma fl_mono_pos:
  assumes "0 < x" "x \<le> y"
  shows "fl x \<le> fl y"
proof (cases "fexp x = fexp y")
  case True
  have y: "0 < y" using assms by simp
  have "x / 2 powi (fexp y) \<le> y / 2 powi (fexp y)"
    using assms pow2_pos [of "fexp y"] by (simp add: divide_right_mono)
  then have "rhe (x / 2 powi (fexp y)) \<le> rhe (y / 2 powi (fexp y))" by (rule rhe_mono)
  then have "rat_of_int (rhe (x / 2 powi (fexp y))) * 2 powi (fexp y)
      \<le> rat_of_int (rhe (y / 2 powi (fexp y))) * 2 powi (fexp y)"
    by (rule scale_mono)
  then show ?thesis by (simp add: fl_pos [OF assms(1)] fl_pos [OF y] True)
next
  case False
  have y: "0 < y" using assms by simp
  have lt: "fexp x < fexp y" using False fexp_mono [OF assms] by simp
  then have il: "- 1022 \<le> ilog2 y" by (simp add: fexp_def max_def split: if_splits)
  have "fexp x + 53 \<le> fexp y + 52" using lt by simp
  then have "(2::rat) powi (fexp x + 53) \<le> 2 powi (fexp y + 52)"
    by (intro power_int_increasing) simp_all
  then show ?thesis using fl_upper [OF assms(1)] fl_lower [OF y il] by linarith
qed

lemma fl_mono:
  assumes "x \<le> y"
  shows "fl x \<le> fl y"
proof -
  consider "0 < x" | "x \<le> 0" "0 \<le> y" | "y < 0" by linarith
  then show ?thesis
  proof cases
    case 1
    then show ?thesis using assms by (rule fl_mono_pos)
  next
    case 2
    have "0 \<le> fl (- x)" using 2 by (intro fl_nonneg) simp
    then have "fl x \<le> 0" by (simp add: fl_minus)
    then show ?thesis using fl_nonneg [OF 2(2)] by linarith
  next
    case 3
    have "fl (- y) \<le> fl (- x)" using 3 assms by (intro fl_mono_pos) simp_all
    then show ?thesis by (simp add: fl_minus)
  qed
qed


lemma fl_err:
  assumes "0 < x" "- 1022 \<le> ilog2 x"
  shows "\<bar>fl x - x\<bar> \<le> x / 2 ^ 53"
proof -
  define u :: rat where "u = 2 powi (fexp x)"
  have u: "0 < u" by (simp add: u_def pow2_pos)
  have e: "fexp x + 52 = ilog2 x" using assms by (simp add: fexp_def)
  have "u * 2 ^ 52 = 2 powi (fexp x + 52)" by (simp add: u_def power_int_add)
  also have "\<dots> \<le> x" using ilog2_bounds [OF assms(1)] by (simp add: e)
  finally have ux: "u * 2 ^ 52 \<le> x" .
  have "fl x - x = (of_int (rhe (x / u)) - x / u) * u"
    using u by (simp add: fl_pos [OF assms(1)] u_def [symmetric] field_simps)
  then have "\<bar>fl x - x\<bar> = \<bar>of_int (rhe (x / u)) - x / u\<bar> * u"
    using u by (simp add: abs_mult)
  also have "\<dots> \<le> 1 / 2 * u"
    using rhe_err [of "x / u"] u by (intro mult_right_mono) simp_all
  also have "\<dots> \<le> x / 2 ^ 53" using ux by simp
  finally show ?thesis .
qed

lemma ilog2_less:
  assumes "0 < x" "x < 2 powi k"
  shows "ilog2 x < k"
proof (rule ccontr)
  assume "\<not> ilog2 x < k"
  then have "(2::rat) powi k \<le> 2 powi (ilog2 x)"
    by (intro power_int_increasing) simp_all
  then show False using ilog2_bounds [OF assms(1)] assms(2) by linarith
qed

lemma ilog2_ge:
  assumes "2 powi k \<le> x"
  shows "k \<le> ilog2 x"
proof (rule ccontr)
  have x: "0 < x" using assms pow2_pos [of k] by linarith
  assume "\<not> k \<le> ilog2 x"
  then have "ilog2 x + 1 \<le> k" by simp
  then have "(2::rat) powi (ilog2 x + 1) \<le> 2 powi k"
    by (intro power_int_increasing) simp_all
  then show False using ilog2_bounds [OF x] assms by linarith
qed

lemma fl_nat:
  assumes "0 < n" "n < 2 ^ 53"
  shows "fl (of_int n) = of_int n"
proof -
  define x :: rat where "x = of_int n"
  have x: "0 < x" using assms by (simp add: x_def)
  have "x < of_int (2 ^ 53)" unfolding x_def using assms(2) by (simp only: of_int_less_iff)
  then have "x < 2 powi 53" by simp
  then have hi: "ilog2 x < 53" using x by (intro ilog2_less) 
  have "2 powi 0 \<le> x" using assms by (simp add: x_def)
  then have lo: "0 \<le> ilog2 x" by (rule ilog2_ge)
  define j where "j = nat (52 - ilog2 x)"
  have fe: "fexp x = - int j" using lo hi by (simp add: fexp_def j_def)
  have p: "(2::rat) powi (fexp x) = 1 / 2 ^ j" by (simp add: fe power_int_minus field_simps)
  have "x / 2 powi (fexp x) = x * 2 ^ j" by (simp only: p) simp
  also have "\<dots> = of_int (n * 2 ^ j)" by (simp add: x_def)
  finally have "x / 2 powi (fexp x) = of_int (n * 2 ^ j)" .
  then have "rhe (x / 2 powi (fexp x)) = n * 2 ^ j" by (simp only: rhe_of_int)
  then have "fl x = of_int (n * 2 ^ j) * (1 / 2 ^ j)" by (simp only: fl_pos [OF x] p)
  then show ?thesis by (simp add: x_def)
qed

lemma fl_int:
  assumes "\<bar>n\<bar> < 2 ^ 53"
  shows "fl (of_int n) = of_int n"
proof -
  consider "n = 0" | "0 < n" | "n < 0" by linarith
  then show ?thesis
  proof cases
    case 1
    then show ?thesis by (simp add: fl_def)
  next
    case 2
    then show ?thesis using assms by (intro fl_nat) simp_all
  next
    case 3
    then have "fl (of_int (- n)) = of_int (- n)" using assms by (intro fl_nat) simp_all
    then show ?thesis by (simp add: fl_minus)
  qed
qed

lemma fl_1: "fl 1 = 1"
  using fl_int [of 1] by simp

lemma fl_100: "fl 100 = 100"
  using fl_int [of 100] by simp

lemma fl_pred_1: "fl (1 - 1 / 2 ^ 53) = 1 - 1 / 2 ^ 53"
  by code_simp

lemma fl_pred_100: "fl (100 * (1 - 1 / 2 ^ 53)) = 100 - 1 / 2 ^ 46"
  by code_simp

section \<open>The shape of a measure\<close>

lemma melody_loop_notes:
  "melody_loop env w ks cn idx k g = (acts, r) \<Longrightarrow>
     \<exists>ps. acts = map (note_action w) ps \<and> length ps \<le> k \<and> (\<forall>g'. r = Inr g' \<longrightarrow> length ps = k)"
proof (induction k arbitrary: idx g acts r)
  case 0
  then show ?case by simp
next
  case (Suc k)
  show ?case
  proof (cases "if pattern w = ''ARP'' then Inr (cn ! (idx mod length cn), g)
            else if pattern w = ''PLUCK'' then random_choice cn g
            else random_choice (getPitches env ks) g")
    case (Inl e)
    then have "acts = [] \<and> r = Inl e" using Suc.prems by auto
    then show ?thesis by simp
  next
    case (Inr pg)
    obtain p g1 where pg: "pg = (p, g1)" by (cases pg)
    obtain acts1 r1 where rec: "melody_loop env w ks cn (Suc idx) k g1 = (acts1, r1)"
      by (cases "melody_loop env w ks cn (Suc idx) k g1")
    from Suc.IH [OF rec] obtain ps where
      ps: "acts1 = map (note_action w) ps" "length ps \<le> k" "\<forall>g'. r1 = Inr g' \<longrightarrow> length ps = k"
      by blast
    have res: "acts = note_action w p # acts1" "r = r1"
      using Suc.prems Inr pg rec by (simp_all add: note_action_def)
    have "acts = map (note_action w) (p # ps)" using res ps by simp
    moreover have "length (p # ps) \<le> Suc k" using ps by simp
    moreover have "\<forall>g'. r = Inr g' \<longrightarrow> length (p # ps) = Suc k" using ps res by simp
    ultimately show ?thesis by blast
  qed
qed

lemma melody_loop_ARP:
  "pattern w = ''ARP'' \<Longrightarrow>
     melody_loop env w ks cn idx k g =
       (map (\<lambda>j. note_action w (cn ! (j mod length cn))) [idx..<idx + k], Inr g)"
proof (induction k arbitrary: idx)
  case 0
  then show ?case by simp
next
  case (Suc k)
  have "[idx..<idx + Suc k] = idx # [Suc idx..<Suc idx + k]"
    by (simp add: upt_conv_Cons)
  then show ?case using Suc by (simp add: note_action_def)
qed


lemma accent_cases:
  "accent env w cn g1 = (extra, g2) \<Longrightarrow> extra = [] \<or> extra = [Append (Chord cn (1 / 2))]"
  by (auto simp: accent_def split: if_splits prod.splits)

lemma random_choice_145:
  "\<exists>degree g1. random_choice [1, 4, 5 :: int] g = Inr (degree, g1) \<and> degree \<in> {1, 4, 5}"
proof -
  obtain d g' where d: "draw g = (d, g')" by (cases "draw g")
  have "d mod 3 = 0 \<or> d mod 3 = 1 \<or> d mod 3 = 2" by linarith
  then show ?thesis by (auto simp: random_choice_def d)
qed

lemma measure_body_unfold:
  assumes "random_choice [1, 4, 5 :: int] g = Inr (degree, g1)"
    and "py_index (getPitches env ks) (degree - 1) = Inr root_pitch"
    and "cn = [root_pitch, pitch_transpose env ''M3'' root_pitch, pitch_transpose env ''P5'' root_pitch]"
    and "accent env w cn g1 = (extra, g2)"
    and "random_randint 2 6 g2 = (drawn, g3)"
    and "melody_loop env w ks cn 0
           (nat (dict_get [(''ARP'', 3), (''PLUCK'', 4), (''RAND'', drawn)] (pattern w) 2)) g3
         = (notes, r)"
  shows "measure_body env w ks M i g =
           (Emit (progress_changed (percent (int i) M))
              # Append (Chord cn (chord_quarterLength w)) # extra @ notes, r)"
  using assms by (simp add: measure_body_def)

lemma measure_body_cases:
  assumes "measure_body env w ks M i g = (acts, r)"
  shows "(acts = [Emit (progress_changed (percent (int i) M))] \<and> (\<exists>e. r = Inl e))
       \<or> (\<exists>cn extra ps. length cn = 3
           \<and> acts = Emit (progress_changed (percent (int i) M))
                  # Append (Chord cn (chord_quarterLength w)) # extra @ map (note_action w) ps
           \<and> (extra = [] \<or> extra = [Append (Chord cn (1 / 2))])
           \<and> (pattern w = ''ARP'' \<longrightarrow> ps = [cn ! 0, cn ! 1, cn ! 2]))"
proof -
  obtain degree g1 where rc: "random_choice [1, 4, 5 :: int] g = Inr (degree, g1)"
    using random_choice_145 [of g] by blast
  show ?thesis
  proof (cases "py_index (getPitches env ks) (degree - 1)")
    case (Inl e)
    then have "acts = [Emit (progress_changed (percent (int i) M))] \<and> r = Inl e"
      using assms rc by (simp add: measure_body_def)
    then show ?thesis by blast
  next
    case (Inr root_pitch)
    define cn where
      "cn = [root_pitch, pitch_transpose env ''M3'' root_pitch, pitch_transpose env ''P5'' root_pitch]"
    obtain extra g2 where ac: "accent env w cn g1 = (extra, g2)"
      by (cases "accent env w cn g1")
    obtain drawn g3 where ri: "random_randint 2 6 g2 = (drawn, g3)"
      by (cases "random_randint 2 6 g2")
    define k where
      "k = nat (dict_get [(''ARP'', 3), (''PLUCK'', 4), (''RAND'', drawn)] (pattern w) 2)"
    obtain nts r1 where ml: "melody_loop env w ks cn 0 k g3 = (nts, r1)"
      by (cases "melody_loop env w ks cn 0 k g3")
    have "measure_body env w ks M i g =
           (Emit (progress_changed (percent (int i) M))
              # Append (Chord cn (chord_quarterLength w)) # extra @ nts, r1)"
      using rc Inr cn_def ac ri ml [unfolded k_def] by (rule measure_body_unfold)
    then have acts: "acts = Emit (progress_changed (percent (int i) M))
              # Append (Chord cn (chord_quarterLength w)) # extra @ nts"
      using assms by simp
    obtain ps where ps: "nts = map (note_action w) ps"
      using melody_loop_notes [OF ml] by blast
    have arp: "pattern w = ''ARP'' \<longrightarrow> ps = [cn ! 0, cn ! 1, cn ! 2]"
    proof
      assume a: "pattern w = ''ARP''"
      then have "k = 3" by (simp add: k_def dict_get_def)
      then have "nts = map (\<lambda>j. note_action w (cn ! (j mod length cn))) [0..<3]"
        using melody_loop_ARP [OF a, of env ks cn 0 3 g3] ml by simp
      then have "map (note_action w) ps = map (note_action w) [cn ! 0, cn ! 1, cn ! 2]"
        using ps by (simp add: cn_def upt_rec)
      moreover have "inj (note_action w)" by (simp add: inj_def note_action_def)
      ultimately show "ps = [cn ! 0, cn ! 1, cn ! 2]" by (metis inj_map_eq_map)
    qed
    have "length cn = 3" by (simp add: cn_def)
    then show ?thesis using acts ps accent_cases [OF ac] arp by blast
  qed
qed

lemma appended_append: "appended (xs @ ys) = appended xs @ appended ys"
  by (induction xs rule: appended.induct) simp_all

lemma appended_notes: "appended (map (note_action w) ps) = map (\<lambda>p. Note p (note_quarterLength w)) ps"
  by (induction ps) (simp_all add: note_action_def)

lemma appended_map_Append: "appended (map Append es) = es"
  by (induction es) simp_all

lemma emitted_append: "emitted (xs @ ys) = emitted xs @ emitted ys"
  by (induction xs rule: emitted.induct) simp_all

lemma emitted_map_Append: "emitted (map Append es) = []"
  by (induction es) simp_all

lemma progress_values_append:
  "progress_values (xs @ ys) = progress_values xs @ progress_values ys"
  by (induction xs rule: progress_values.induct) simp_all

text \<open>The elements that a measure appends, whatever its outcome.\<close>

lemma measure_body_elements:
  assumes "measure_body env w ks M i g = (acts, r)"
  shows "emitted acts = [progress_changed (percent (int i) M)]
       \<and> (appended acts = []
          \<or> (\<exists>cn ps. length cn = 3
               \<and> (appended acts = Chord cn (chord_quarterLength w)
                      # map (\<lambda>p. Note p (note_quarterLength w)) ps
                  \<or> appended acts = Chord cn (chord_quarterLength w) # Chord cn (1 / 2)
                      # map (\<lambda>p. Note p (note_quarterLength w)) ps)
               \<and> (pattern w = ''ARP'' \<longrightarrow> ps = [cn ! 0, cn ! 1, cn ! 2])))"
proof -
  from measure_body_cases [OF assms] show ?thesis
  proof
    assume "acts = [Emit (progress_changed (percent (int i) M))] \<and> (\<exists>e. r = Inl e)"
    then show ?thesis by simp
  next
    assume "\<exists>cn extra ps. length cn = 3
           \<and> acts = Emit (progress_changed (percent (int i) M))
                  # Append (Chord cn (chord_quarterLength w)) # extra @ map (note_action w) ps
           \<and> (extra = [] \<or> extra = [Append (Chord cn (1 / 2))])
           \<and> (pattern w = ''ARP'' \<longrightarrow> ps = [cn ! 0, cn ! 1, cn ! 2])"
    then obtain cn extra ps where h: "length cn = 3"
      "acts = Emit (progress_changed (percent (int i) M))
                  # Append (Chord cn (chord_quarterLength w)) # extra @ map (note_action w) ps"
      "extra = [] \<or> extra = [Append (Chord cn (1 / 2))]"
      "pattern w = ''ARP'' \<longrightarrow> ps = [cn ! 0, cn ! 1, cn ! 2]" by blast
    have em: "emitted (map (note_action w) ps) = []"
      by (induction ps) (simp_all add: note_action_def)
    have e: "emitted acts = [progress_changed (percent (int i) M)]"
      using h(2,3) em by (auto simp: emitted_append)
    have "appended acts = Chord cn (chord_quarterLength w)
                      # map (\<lambda>p. Note p (note_quarterLength w)) ps
                  \<or> appended acts = Chord cn (chord_quarterLength w) # Chord cn (1 / 2)
                      # map (\<lambda>p. Note p (note_quarterLength w)) ps"
      using h(2,3) by (auto simp: appended_append appended_notes)
    then show ?thesis using e h(1,4) by blast
  qed
qed

section \<open>Durations along a run\<close>

lemma chord_quarterLength_ge: "1 / 4 \<le> chord_quarterLength w"
  by (simp add: chord_quarterLength_def Let_def)

lemma note_quarterLength_ge: "1 / 8 \<le> note_quarterLength w"
  by (simp add: note_quarterLength_def Let_def)

lemma note_lengths_append: "note_lengths (xs @ ys) = note_lengths xs @ note_lengths ys"
  by (induction xs rule: note_lengths.induct) simp_all

lemma note_lengths_notes: "note_lengths (map (\<lambda>p. Note p d) ps) = replicate (length ps) d"
  by (induction ps) simp_all

lemma note_pitches_notes: "note_pitches (map (\<lambda>p. Note p d) ps) = ps"
  by (induction ps) simp_all


lemma chord_pitches_notes: "chord_pitches (map (\<lambda>p. Note p d) ps) = []"
  by (induction ps) simp_all

lemma duration_ok_notes: "1 / 8 \<le> d \<Longrightarrow> list_all duration_ok (map (\<lambda>p. Note p d) ps)"
  by (induction ps) simp_all

lemma measure_durations:
  assumes "measure_body env w ks M i g = (acts, r)"
  shows "list_all duration_ok (appended acts)
       \<and> note_lengths (appended acts)
           = replicate (length (note_lengths (appended acts))) (note_quarterLength w)"
  using measure_body_elements [OF assms] chord_quarterLength_ge [of w]
    note_quarterLength_ge [of w]
  by (auto simp: note_lengths_notes duration_ok_notes)

lemma replicate_append_same:
  "xs = replicate (length xs) d \<Longrightarrow> ys = replicate (length ys) d
     \<Longrightarrow> xs @ ys = replicate (length (xs @ ys)) d"
  by (metis length_append replicate_add)

lemma measures_loop_durations:
  "measures_loop env w ks M i k g = (acts, r) \<Longrightarrow>
     list_all duration_ok (appended acts)
     \<and> note_lengths (appended acts)
         = replicate (length (note_lengths (appended acts))) (note_quarterLength w)"
proof (induction k arbitrary: i g acts r)
  case 0
  then show ?case by simp
next
  case (Suc k)
  obtain a1 r1 where mb: "measure_body env w ks M i g = (a1, r1)"
    by (cases "measure_body env w ks M i g")
  note d1 = measure_durations [OF mb]
  show ?case
  proof (cases r1)
    case (Inl e)
    then have "acts = a1" using Suc.prems mb by simp
    then show ?thesis using d1 by simp
  next
    case (Inr g1)
    obtain a2 r2 where rec: "measures_loop env w ks M (Suc i) k g1 = (a2, r2)"
      by (cases "measures_loop env w ks M (Suc i) k g1")
    note d2 = Suc.IH [OF rec]
    have acts: "acts = a1 @ a2" using Suc.prems mb Inr rec by simp
    have "note_lengths (appended a1) @ note_lengths (appended a2)
        = replicate (length (note_lengths (appended a1) @ note_lengths (appended a2)))
            (note_quarterLength w)"
      using d1 d2 by (intro replicate_append_same) simp_all
    then show ?thesis using d1 d2
      by (simp add: acts appended_append note_lengths_append)
  qed
qed

text \<open>The trace of every run: a header of three appends, the trace of the loop, and
  an ending of one or two signals.\<close>

lemma run_trace:
  "\<exists>hd_acts acts ending M ks g0 r.
      fst (run env w g fs) = hd_acts @ acts @ ending
    \<and> appended hd_acts = [MetronomeMark (tempo w), TimeSignature ''4/4'', Key ks ''major'']
    \<and> appended ending = []
    \<and> (acts = [] \<or> (measures_of w = Inr M \<and> measures_loop env w ks M 0 (nat M) g0 = (acts, r)))"
proof -
  define start :: "'a action list" where
    "start = [Append (MetronomeMark (tempo w)), Append (TimeSignature ''4/4'')]"
  have "possible_keys \<noteq> []" by (simp add: possible_keys_def)
  then obtain ks g0 where rc: "random_choice possible_keys g = Inr (ks, g0)"
    by (cases "draw g") (simp add: random_choice_def)
  define header where "header = start @ [Append (Key ks ''major'')]"
  have ah: "appended header = [MetronomeMark (tempo w), TimeSignature ''4/4'', Key ks ''major'']"
    by (simp add: header_def start_def)
  show ?thesis
  proof (cases "measures_of w")
    case (Inl e)
    then have "fst (run env w g fs) = header @ [] @ [Emit (error (str_exn e))]"
      by (simp add: run_def rc header_def start_def)
    then show ?thesis using ah by (metis appended.simps(1,3))
  next
    case (Inr M)
    obtain acts r where ml: "measures_loop env w ks M 0 (nat M) g0 = (acts, r)"
      by (cases "measures_loop env w ks M 0 (nat M) g0")
    have "\<exists>ending. fst (run env w g fs) = header @ acts @ ending \<and> appended ending = []"
    proof (cases r)
      case (Inl e)
      then have "fst (run env w g fs) = header @ acts @ [Emit (error (str_exn e))]"
        using Inr ml by (simp add: run_def rc header_def start_def)
      then show ?thesis by (metis appended.simps(1,3))
    next
      case (Inr g1)
      obtain oe fs' where ex:
        "export_midi env w (appended (header @ acts @ [Emit (progress_changed 100)])) fs = (oe, fs')"
        by (cases "export_midi env w (appended (header @ acts @ [Emit (progress_changed 100)])) fs")
      show ?thesis
      proof (cases oe)
        case None
        then have "fst (run env w g fs)
            = header @ acts @ [Emit (progress_changed 100), Emit (finished (save_path w))]"
          using \<open>measures_of w = Inr M\<close> ml Inr ex
          by (simp add: run_def rc header_def start_def)
        then show ?thesis by (metis appended.simps(1,3))
      next
        case (Some e)
        then have "fst (run env w g fs)
            = header @ acts @ [Emit (progress_changed 100), Emit (error (str_exn e))]"
          using \<open>measures_of w = Inr M\<close> ml Inr ex
          by (simp add: run_def rc header_def start_def)
        then show ?thesis by (metis appended.simps(1,3))
      qed
    qed
    then show ?thesis using ah Inr ml by blast
  qed
qed

lemma run_durations:
  "list_all duration_ok (appended (fst (run env w g fs)))
   \<and> note_lengths (appended (fst (run env w g fs)))
       = replicate (length (note_lengths (appended (fst (run env w g fs))))) (note_quarterLength w)"
proof -
  obtain hd_acts acts ending M ks g0 r where h:
    "fst (run env w g fs) = hd_acts @ acts @ ending"
    "appended hd_acts = [MetronomeMark (tempo w), TimeSignature ''4/4'', Key ks ''major'']"
    "appended ending = []"
    "acts = [] \<or> (measures_of w = Inr M \<and> measures_loop env w ks M 0 (nat M) g0 = (acts, r))"
    using run_trace [of env w g fs] by blast
  have "list_all duration_ok (appended acts)
     \<and> note_lengths (appended acts)
         = replicate (length (note_lengths (appended acts))) (note_quarterLength w)"
    using h(4) measures_loop_durations [of env w ks M 0 "nat M" g0 acts r] by auto
  then show ?thesis using h(1,2,3) by (simp add: appended_append note_lengths_append)
qed

section \<open>The sample run, evaluated\<close>

lemma demo_fields:
  "tempo demo_worker = 120" "pattern demo_worker = ''ARP''" "length_sec demo_worker = 2"
  "save_path demo_worker = ''/music/out.mid''" "crazy demo_worker = 10"
  by (simp_all add: demo_worker_def GeneratorWorker_init_def)

lemma fl_half: "fl (1 / 2) = 1 / 2"
  by code_simp

lemma fl_small [simp]:
  "fl 0 = 0" "fl 2 = 2" "fl 4 = 4" "fl 50 = 50" "fl 240 = 240" "fl 1200 = 1200" "fl 20 = 20"
  using fl_int [of 0] fl_int [of 2] fl_int [of 4] fl_int [of 50] fl_int [of 240]
    fl_int [of 1200] fl_int [of 20]
  by simp_all

lemma float_of_int_small:
  assumes "\<bar>n\<bar> < 2 ^ 53"
  shows "float_of_int n = Inr (of_int n)"
proof -
  have "\<bar>rat_of_int n\<bar> < of_int (2 ^ 53)" using assms by (simp only: of_int_abs [symmetric] of_int_less_iff)
  also have "\<dots> \<le> 2 ^ 1024" by simp
  finally show ?thesis using fl_int [OF assms] by (simp add: float_of_int_def)
qed

lemma demo_measures: "measures_of demo_worker = Inr 2"
  using float_of_int_small [of 240]
  by (simp add: measures_of_def demo_fields float_truediv_def float_floordiv_def int_of_float_def)

lemma demo_percent: "percent 0 2 = 0" "percent 1 2 = 50"
  by (simp_all add: percent_def int_truediv_def float_mul_def int_of_float_def fl_half)

lemma demo_chord_length: "chord_quarterLength demo_worker = 1 / 2"
  using fl_minus [of "1 / 2"]
  by (simp add: chord_quarterLength_def demo_fields dict_get_def int_truediv_def float_add_def
      float_mul_def fl_half fl_1)

lemma demo_note_length: "note_quarterLength demo_worker = 1 / 2"
  by (simp add: note_quarterLength_def demo_fields int_truediv_def float_add_def
      float_truediv_def fl_half fl_1)

lemma demo_measure_body:
  "measure_body demo_env demo_worker ''C'' 2 i [] = (demo_measure (percent (int i) 2), Inr [])"
proof -
  have 1: "random_choice [1, 4, 5 :: int] [] = Inr (1, [])"
    by (simp add: random_choice_def draw_def)
  have 2: "py_index (getPitches demo_env ''C'') (1 - 1) = Inr 60"
    by (simp add: py_index_def demo_env_def)
  have 3: "[60, 64, 67] = [60, pitch_transpose demo_env ''M3'' 60, pitch_transpose demo_env ''P5'' 60]"
    by (simp add: demo_env_def)
  have 4: "accent demo_env demo_worker [60, 64, 67] [] = ([Append (Chord [60, 64, 67] (1 / 2))], [])"
    by (simp add: accent_def demo_fields random_random_def draw_def int_truediv_def fl_half)
  have 5: "random_randint 2 6 [] = (2, [])"
    by (simp add: random_randint_def draw_def)
  have 6: "melody_loop demo_env demo_worker ''C'' [60, 64, 67] 0
           (nat (dict_get [(''ARP'', 3), (''PLUCK'', 4), (''RAND'', 2)] (pattern demo_worker) 2)) []
         = ([Append (Note 60 (1 / 2)), Append (Note 64 (1 / 2)), Append (Note 67 (1 / 2))], Inr [])"
    using melody_loop_ARP [of demo_worker demo_env "''C''" "[60, 64, 67]" 0 3 "[]"]
    by (simp add: demo_fields dict_get_def note_action_def demo_note_length upt_rec)
  show ?thesis
    using measure_body_unfold [OF 1 2 3 4 5 6, of 2 i]
    by (simp add: demo_measure_def demo_chord_length)
qed

lemma demo_loop:
  "measures_loop demo_env demo_worker ''C'' 2 0 2 [] = (demo_measure 0 @ demo_measure 50, Inr [])"
proof -
  have "measures_loop demo_env demo_worker ''C'' 2 0 (Suc (Suc 0)) []
      = (demo_measure 0 @ demo_measure 50, Inr [])"
    by (simp add: demo_measure_body demo_percent)
  then show ?thesis by (simp only: numeral_2_eq_2)
qed

lemma run_success:
  assumes "random_choice possible_keys g = Inr (ks, g0)"
    and "measures_of w = Inr M"
    and "measures_loop env w ks M 0 (nat M) g0 = (acts, Inr g1)"
    and "body = [Append (MetronomeMark (tempo w)), Append (TimeSignature ''4/4''),
                 Append (Key ks ''major'')] @ acts @ [Emit (progress_changed 100)]"
    and "export_midi env w (appended body) fs = (None, fs')"
  shows "run env w g fs = (body @ [Emit (finished (save_path w))], fs')"
  using assms by (simp add: run_def)

lemma demo_run:
  "fst (run demo_env demo_worker [] demo_fs) =
     [Append (MetronomeMark 120), Append (TimeSignature ''4/4''), Append (Key ''C'' ''major'')]
     @ demo_measure 0 @ demo_measure 50
     @ [Emit (progress_changed 100), Emit (finished ''/music/out.mid'')]"
proof -
  define body where
    "body = [Append (MetronomeMark (tempo demo_worker)), Append (TimeSignature ''4/4''),
             Append (Key ''C'' ''major'')] @ (demo_measure 0 @ demo_measure 50)
            @ [Emit (progress_changed 100)]"
  have 1: "random_choice possible_keys [] = Inr (''C'', [])"
    by (simp add: random_choice_def draw_def possible_keys_def)
  have 3: "measures_loop demo_env demo_worker ''C'' 2 0 (nat 2) []
      = (demo_measure 0 @ demo_measure 50, Inr [])"
    using demo_loop by simp
  have "fst (export_midi demo_env demo_worker (appended body) demo_fs) = None"
    by (simp add: export_midi_def write_staging_def midi_open_def midi_write_def os_replace_def
        demo_env_def demo_fs_def tmp_path_def)
  then obtain fs' where 5: "export_midi demo_env demo_worker (appended body) demo_fs = (None, fs')"
    by (cases "export_midi demo_env demo_worker (appended body) demo_fs") simp
  show ?thesis
    using run_success [OF 1 demo_measures 3 body_def 5]
    by (simp add: body_def demo_fields)
qed

section \<open>The code and the formulas of the specification\<close>






section \<open>Effects on the file system and outcomes of a run\<close>

lemma midi_open_effect:
  assumes "midi_open env p fs = Inr fs1"
  shows "parent_exists fs1 = parent_exists fs \<and> files fs1 = (files fs)(p \<mapsto> [])
         \<and> parent_exists fs p"
  using assms by (auto simp: midi_open_def split: if_splits option.splits)

lemma midi_open_fails:
  "\<not> parent_exists fs p \<Longrightarrow> \<exists>e. midi_open env p fs = Inl e"
  by (simp add: midi_open_def)

lemma midi_write_effect:
  assumes "midi_write env p d fs1 = (oe, fs2)"
  shows "parent_exists fs2 = parent_exists fs1
         \<and> (\<forall>q. q \<noteq> p \<longrightarrow> files fs2 q = files fs1 q)
         \<and> (oe = None \<longrightarrow> files fs2 p = Some d)"
  using assms by (auto simp: midi_write_def split: option.splits)

lemma write_staging_effect:
  assumes "write_staging env d fs = (oe, fs2)"
  shows "parent_exists fs2 = parent_exists fs
         \<and> (\<forall>q. q \<noteq> tmp_path env \<longrightarrow> files fs2 q = files fs q)
         \<and> (oe = None \<longrightarrow> files fs2 (tmp_path env) = Some d)
         \<and> (\<not> parent_exists fs (tmp_path env) \<longrightarrow> oe \<noteq> None \<and> fs2 = fs)"
proof (cases "midi_open env (tmp_path env) fs")
  case (Inl e)
  then have "oe = Some e \<and> fs2 = fs" using assms by (simp add: write_staging_def)
  then show ?thesis by simp
next
  case (Inr fs1)
  then have w: "midi_write env (tmp_path env) d fs1 = (oe, fs2)"
    using assms by (simp add: write_staging_def)
  show ?thesis
    using midi_open_effect [OF Inr] midi_write_effect [OF w] by auto
qed

lemma os_replace_effect:
  assumes "os_replace env src dst fs = Inr fs3"
  shows "parent_exists fs dst \<and> files fs3 dst = files fs src
         \<and> (\<forall>q. q \<noteq> src \<and> q \<noteq> dst \<longrightarrow> files fs3 q = files fs q)"
  using assms by (auto simp: os_replace_def split: option.splits if_splits)

lemma export_effect:
  assumes "export_midi env w sc fs = (oe, fs')"
  shows "(\<forall>q. q \<noteq> tmp_path env \<and> q \<noteq> save_path w \<longrightarrow> files fs' q = files fs q)
       \<and> (oe \<noteq> None \<and> save_path w \<noteq> tmp_path env
            \<longrightarrow> files fs' (save_path w) = files fs (save_path w))
       \<and> (\<not> parent_exists fs (save_path w)
            \<longrightarrow> oe \<noteq> None \<and> files fs' (save_path w) = files fs (save_path w))
       \<and> (oe = None \<longrightarrow> files fs' (save_path w) = Some (streamToMidiFile env sc))"
proof -
  obtain o1 fs2 where ws: "write_staging env (streamToMidiFile env sc) fs = (o1, fs2)"
    by (cases "write_staging env (streamToMidiFile env sc) fs")
  note st = write_staging_effect [OF ws]
  show ?thesis
  proof (cases o1)
    case (Some e)
    then have r: "oe = Some e" "fs' = fs2" using assms ws by (simp_all add: export_midi_def)
    show ?thesis using st Some by (cases "save_path w = tmp_path env") (auto simp: r)
  next
    case None
    show ?thesis
    proof (cases "os_replace env (tmp_path env) (save_path w) fs2")
      case (Inl e)
      then have r: "oe = Some e" "fs' = fs2" using assms ws None by (simp_all add: export_midi_def)
      show ?thesis using st None by (cases "save_path w = tmp_path env") (auto simp: r)
    next
      case (Inr fs3)
      then have r: "oe = None" "fs' = fs3" using assms ws None by (simp_all add: export_midi_def)
      show ?thesis using st None os_replace_effect [OF Inr]
        by (cases "save_path w = tmp_path env") (auto simp: r)
    qed
  qed
qed


lemma measures_loop_emitted:
  "measures_loop env w ks M i k g = (acts, r) \<Longrightarrow>
     \<exists>j\<le>k. emitted acts = map (\<lambda>n. progress_changed (percent (int n) M)) [i..<i + j]
           \<and> (\<forall>g'. r = Inr g' \<longrightarrow> j = k)"
proof (induction k arbitrary: i g acts r)
  case 0
  then show ?case by simp
next
  case (Suc k)
  obtain a1 r1 where mb: "measure_body env w ks M i g = (a1, r1)"
    by (cases "measure_body env w ks M i g")
  have e1: "emitted a1 = [progress_changed (percent (int i) M)]"
    using measure_body_elements [OF mb] by simp
  show ?case
  proof (cases r1)
    case (Inl e)
    then have "acts = a1" "r = Inl e" using Suc.prems mb by simp_all
    then have "emitted acts = map (\<lambda>n. progress_changed (percent (int n) M)) [i..<i + 1]
           \<and> (\<forall>g'. r = Inr g' \<longrightarrow> 1 = Suc k)" using e1 by simp
    then show ?thesis by (intro exI [of _ 1]) simp
  next
    case (Inr g1)
    obtain a2 r2 where rec: "measures_loop env w ks M (Suc i) k g1 = (a2, r2)"
      by (cases "measures_loop env w ks M (Suc i) k g1")
    from Suc.IH [OF rec] obtain j where j: "j \<le> k"
      "emitted a2 = map (\<lambda>n. progress_changed (percent (int n) M)) [Suc i..<Suc i + j]"
      "\<forall>g'. r2 = Inr g' \<longrightarrow> j = k" by blast
    have acts: "acts = a1 @ a2" "r = r2" using Suc.prems mb Inr rec by simp_all
    have "[i..<i + Suc j] = i # [Suc i..<Suc i + j]" by (simp add: upt_conv_Cons)
    then have "emitted acts = map (\<lambda>n. progress_changed (percent (int n) M)) [i..<i + Suc j]"
      using e1 j(2) by (simp add: acts emitted_append)
    then show ?thesis using j(1,3) acts(2) by (intro exI [of _ "Suc j"]) simp
  qed
qed

text \<open>The three ways in which a run ends: before the loop, in the loop, or with the
  export.\<close>

lemma run_cases:
  "\<exists>ks g0. random_choice possible_keys g = Inr (ks, g0) \<and>
     ((\<exists>e. measures_of w = Inl e
          \<and> run env w g fs = (header_of w ks @ [Emit (error (str_exn e))], fs))
    \<or> (\<exists>M acts e. measures_of w = Inr M
          \<and> measures_loop env w ks M 0 (nat M) g0 = (acts, Inl e)
          \<and> run env w g fs = (header_of w ks @ acts @ [Emit (error (str_exn e))], fs))
    \<or> (\<exists>M acts g1 oe fs'. measures_of w = Inr M
          \<and> measures_loop env w ks M 0 (nat M) g0 = (acts, Inr g1)
          \<and> export_midi env w (appended (header_of w ks @ acts @ [Emit (progress_changed 100)])) fs
              = (oe, fs')
          \<and> run env w g fs =
              (header_of w ks @ acts @ [Emit (progress_changed 100),
                 Emit (case oe of None \<Rightarrow> finished (save_path w) | Some e \<Rightarrow> error (str_exn e))],
               fs')))"
proof -
  have "possible_keys \<noteq> []" by (simp add: possible_keys_def)
  then obtain ks g0 where rc: "random_choice possible_keys g = Inr (ks, g0)"
    by (cases "draw g") (simp add: random_choice_def)
  show ?thesis
  proof (cases "measures_of w")
    case (Inl e)
    then have "run env w g fs = (header_of w ks @ [Emit (error (str_exn e))], fs)"
      by (simp add: run_def rc header_of_def)
    then show ?thesis using rc Inl by blast
  next
    case (Inr M)
    obtain acts r where ml: "measures_loop env w ks M 0 (nat M) g0 = (acts, r)"
      by (cases "measures_loop env w ks M 0 (nat M) g0")
    show ?thesis
    proof (cases r)
      case (Inl e)
      then have "run env w g fs = (header_of w ks @ acts @ [Emit (error (str_exn e))], fs)"
        using Inr ml by (simp add: run_def rc header_of_def)
      then show ?thesis using rc Inr ml Inl by blast
    next
      case g1: (Inr g1)
      obtain oe fs' where ex:
        "export_midi env w (appended (header_of w ks @ acts @ [Emit (progress_changed 100)])) fs
          = (oe, fs')"
        by (cases "export_midi env w
              (appended (header_of w ks @ acts @ [Emit (progress_changed 100)])) fs")
      have "run env w g fs =
              (header_of w ks @ acts @ [Emit (progress_changed 100),
                 Emit (case oe of None \<Rightarrow> finished (save_path w) | Some e \<Rightarrow> error (str_exn e))],
               fs')"
        using Inr ml g1 ex by (cases oe) (simp_all add: run_def rc header_of_def)
      then show ?thesis using rc Inr ml g1 ex by blast
    qed
  qed
qed


lemma emitted_header: "emitted (header_of w ks) = []"
  by (simp add: header_of_def)

lemma appended_header:
  "appended (header_of w ks) = [MetronomeMark (tempo w), TimeSignature ''4/4'', Key ks ''major'']"
  by (simp add: header_of_def)

text \<open>Every run reports progress values and then exactly one outcome; a failed run
  leaves the destination as it was unless the destination is the staging path.\<close>

lemma run_outcome:
  assumes "run env w g fs = (tr, fs')"
  shows "(\<exists>ps t. emitted tr = map progress_changed ps @ [t]
            \<and> (t = finished (save_path w) \<or> (\<exists>msg. t = error msg)))
       \<and> ((\<exists>msg. last (emitted tr) = error msg) \<and> save_path w \<noteq> tmp_path env
            \<longrightarrow> files fs' (save_path w) = files fs (save_path w))
       \<and> (\<not> parent_exists fs (save_path w)
            \<longrightarrow> (\<exists>msg. last (emitted tr) = error msg)
                \<and> files fs' (save_path w) = files fs (save_path w))
       \<and> (last (emitted tr) = finished (save_path w)
            \<longrightarrow> files fs' (save_path w) = Some (streamToMidiFile env (appended tr)))
       \<and> (\<forall>q. q \<noteq> tmp_path env \<and> q \<noteq> save_path w \<longrightarrow> files fs' q = files fs q)"
proof -
  from run_cases [of g w env fs] obtain ks g0 where
    c: "(\<exists>e. measures_of w = Inl e
          \<and> run env w g fs = (header_of w ks @ [Emit (error (str_exn e))], fs))
    \<or> (\<exists>M acts e. measures_of w = Inr M
          \<and> measures_loop env w ks M 0 (nat M) g0 = (acts, Inl e)
          \<and> run env w g fs = (header_of w ks @ acts @ [Emit (error (str_exn e))], fs))
    \<or> (\<exists>M acts g1 oe fs'. measures_of w = Inr M
          \<and> measures_loop env w ks M 0 (nat M) g0 = (acts, Inr g1)
          \<and> export_midi env w (appended (header_of w ks @ acts @ [Emit (progress_changed 100)])) fs
              = (oe, fs')
          \<and> run env w g fs =
              (header_of w ks @ acts @ [Emit (progress_changed 100),
                 Emit (case oe of None \<Rightarrow> finished (save_path w) | Some e \<Rightarrow> error (str_exn e))],
               fs'))"
    by blast
  from c show ?thesis
  proof (elim disjE exE conjE)
    fix e
    assume "run env w g fs = (header_of w ks @ [Emit (error (str_exn e))], fs)"
    then have r: "tr = header_of w ks @ [Emit (error (str_exn e))]" "fs' = fs"
      using assms by simp_all
    have em: "emitted tr = map progress_changed [] @ [error (str_exn e)]"
      by (simp add: r emitted_append emitted_header)
    have 1: "\<exists>ps t. emitted tr = map progress_changed ps @ [t]
            \<and> (t = finished (save_path w) \<or> (\<exists>msg. t = error msg))"
      using em by blast
    have l: "last (emitted tr) = error (str_exn e)" by (simp add: em)
    show ?thesis using 1 by (simp only: l r(2)) simp
  next
    fix M acts e
    assume ml: "measures_loop env w ks M 0 (nat M) g0 = (acts, Inl e)"
      and "run env w g fs = (header_of w ks @ acts @ [Emit (error (str_exn e))], fs)"
    then have r: "tr = header_of w ks @ acts @ [Emit (error (str_exn e))]" "fs' = fs"
      using assms by simp_all
    from measures_loop_emitted [OF ml] obtain j where
      "emitted acts = map (\<lambda>n. progress_changed (percent (int n) M)) [0..<0 + j]" by blast
    then have em: "emitted tr = map progress_changed (map (\<lambda>n. percent (int n) M) [0..<j])
        @ [error (str_exn e)]"
      by (simp add: r emitted_append emitted_header)
    have 1: "\<exists>ps t. emitted tr = map progress_changed ps @ [t]
            \<and> (t = finished (save_path w) \<or> (\<exists>msg. t = error msg))"
      using em by blast
    have l: "last (emitted tr) = error (str_exn e)" by (simp add: em)
    show ?thesis using 1 by (simp only: l r(2)) simp
  next
    fix M acts g1 oe fs1
    assume ml: "measures_loop env w ks M 0 (nat M) g0 = (acts, Inr g1)"
      and ex: "export_midi env w
                 (appended (header_of w ks @ acts @ [Emit (progress_changed 100)])) fs = (oe, fs1)"
      and "run env w g fs =
              (header_of w ks @ acts @ [Emit (progress_changed 100),
                 Emit (case oe of None \<Rightarrow> finished (save_path w) | Some e \<Rightarrow> error (str_exn e))],
               fs1)"
    then have r: "tr = header_of w ks @ acts @ [Emit (progress_changed 100),
                 Emit (case oe of None \<Rightarrow> finished (save_path w) | Some e \<Rightarrow> error (str_exn e))]"
      "fs' = fs1" using assms by simp_all
    define t where
      "t = (case oe of None \<Rightarrow> finished (save_path w) | Some e \<Rightarrow> error (str_exn e))"
    from measures_loop_emitted [OF ml] obtain j where
      "emitted acts = map (\<lambda>n. progress_changed (percent (int n) M)) [0..<0 + j]" by blast
    then have em: "emitted tr
        = map progress_changed (map (\<lambda>n. percent (int n) M) [0..<j] @ [100]) @ [t]"
      by (simp add: r emitted_append emitted_header t_def)
    have t: "t = finished (save_path w) \<or> (\<exists>msg. t = error msg)"
      by (cases oe) (simp_all add: t_def)
    have l: "last (emitted tr) = t" by (simp add: em)
    have tn: "(\<exists>msg. t = error msg) \<longleftrightarrow> oe \<noteq> None" "t = finished (save_path w) \<longleftrightarrow> oe = None"
      by (cases oe; simp add: t_def)+
    have ap: "appended tr = appended (header_of w ks @ acts @ [Emit (progress_changed 100)])"
      by (simp add: r appended_append)
    note ee = export_effect [OF ex]
    have 1: "\<exists>ps t. emitted tr = map progress_changed ps @ [t]
            \<and> (t = finished (save_path w) \<or> (\<exists>msg. t = error msg))"
      using em t by blast
    show ?thesis
      using 1 ee by (simp only: l tn ap r(2)) blast
  qed
qed


section \<open>The measure count and the progress values\<close>

lemma int_of_float_of_int: "int_of_float (of_int k) = k"
  by (simp add: int_of_float_def)

lemma measures_of_eq:
  assumes "float_of_int (length_sec w * tempo w) = Inr p"
  shows "measures_of w = Inr (\<lfloor>fl (p / 60) / 4\<rfloor> + 1)"
  using assms
  by (simp add: measures_of_def float_truediv_def float_floordiv_def int_of_float_of_int)



lemma floor_fl_div_240:
  assumes "0 \<le> n" "n < 2 ^ 53"
  shows "\<lfloor>fl (rat_of_int n / 60) / 4\<rfloor> = n div 240"
proof -
  define k where "k = n div 240"
  define x where "x = rat_of_int n / 60"
  have k0: "0 \<le> k" using assms(1) by (simp add: k_def pos_imp_zdiv_nonneg_iff)
  have kn: "240 * k \<le> n" "n \<le> 240 * k + 239" unfolding k_def by linarith+
  have "rat_of_int (240 * k) \<le> rat_of_int n" using kn(1) by (simp only: of_int_le_iff)
  then have lo: "rat_of_int (4 * k) \<le> x" by (simp add: x_def)
  have "rat_of_int n \<le> rat_of_int (240 * k + 239)" using kn(2) by (simp only: of_int_le_iff)
  then have hi: "x + 1 / 60 \<le> rat_of_int (4 * k) + 4" by (simp add: x_def)
  have k4: "\<bar>4 * k\<bar> < 2 ^ 53" using k0 kn(1) assms(2) by simp
  have "fl (rat_of_int (4 * k)) \<le> fl x" using lo by (rule fl_mono)
  then have flo: "rat_of_int (4 * k) \<le> fl x" using fl_int [OF k4] by simp
  have fhi: "fl x < rat_of_int (4 * k) + 4"
  proof (cases "n = 0")
    case True
    then show ?thesis using k0 by (simp add: x_def fl_def)
  next
    case False
    then have n1: "1 \<le> n" using assms(1) by simp
    then have "rat_of_int 1 \<le> rat_of_int n" by (simp only: of_int_le_iff)
    then have x60: "1 / 60 \<le> x" by (simp add: x_def)
    then have xp: "0 < x" by simp
    have "(2::rat) powi (- 1022) \<le> 2 powi (- 6)" by (intro power_int_increasing) simp_all
    also have "\<dots> \<le> 1 / 60" by (simp add: power_int_minus)
    finally have "2 powi (- 1022) \<le> x" using x60 by simp
    then have il: "- 1022 \<le> ilog2 x" by (rule ilog2_ge)
    have "rat_of_int n < rat_of_int (2 ^ 53)" using assms(2) by (simp only: of_int_less_iff)
    then have "x < 2 ^ 53 / 60" by (simp add: x_def)
    then have "x / 2 ^ 53 < 1 / 60" by (simp add: field_simps)
    then have "\<bar>fl x - x\<bar> < 1 / 60" using fl_err [OF xp il] by simp
    then show ?thesis using hi by linarith
  qed
  have "\<lfloor>fl x / 4\<rfloor> = k"
  proof (rule floor_unique)
    show "of_int k \<le> fl x / 4" using flo by simp
    show "fl x / 4 < of_int k + 1" using fhi by simp
  qed
  then show ?thesis by (simp add: x_def k_def)
qed

lemma spec_measures_div: "spec_measures l t = (l * t) div 240 + 1"
proof -
  have "rat_of_int l * rat_of_int t / 60 / 4 = rat_of_int (l * t) / rat_of_int 240" by simp
  then have "\<lfloor>rat_of_int l * rat_of_int t / 60 / 4\<rfloor> = (l * t) div 240"
    by (simp only: floor_divide_of_int_eq)
  then show ?thesis by (simp add: spec_measures_def)
qed

lemma measures_exact:
  assumes "0 \<le> length_sec w * tempo w" "length_sec w * tempo w < 2 ^ 53"
  shows "measures_of w = Inr (spec_measures (length_sec w) (tempo w))"
proof -
  have a: "\<bar>length_sec w * tempo w\<bar> < 2 ^ 53" using assms by simp
  show ?thesis
    using measures_of_eq [OF float_of_int_small [OF a]] floor_fl_div_240 [OF assms]
    by (simp add: spec_measures_div)
qed

lemma percent_eq:
  assumes "0 \<le> i" "0 < M"
  shows "percent i M = \<lfloor>fl (fl (rat_of_int i / rat_of_int M) * 100)\<rfloor>"
    and "0 \<le> fl (fl (rat_of_int i / rat_of_int M) * 100)"
proof -
  have "0 \<le> rat_of_int i / rat_of_int M" using assms by simp
  then have "0 \<le> fl (rat_of_int i / rat_of_int M)" by (rule fl_nonneg)
  then have "0 \<le> fl (rat_of_int i / rat_of_int M) * 100" by simp
  then show "0 \<le> fl (fl (rat_of_int i / rat_of_int M) * 100)" by (rule fl_nonneg)
  then show "percent i M = \<lfloor>fl (fl (rat_of_int i / rat_of_int M) * 100)\<rfloor>"
    by (simp add: percent_def int_truediv_def float_mul_def int_of_float_def)
qed

lemma percent_mono:
  assumes "0 \<le> i" "i \<le> j" "0 < M"
  shows "percent i M \<le> percent j M"
proof -
  have "rat_of_int i \<le> rat_of_int j" using assms(2) by (simp only: of_int_le_iff)
  then have "rat_of_int i / rat_of_int M \<le> rat_of_int j / rat_of_int M"
    using assms(3) by (simp add: divide_right_mono)
  then have "fl (rat_of_int i / rat_of_int M) \<le> fl (rat_of_int j / rat_of_int M)"
    by (rule fl_mono)
  then have "fl (rat_of_int i / rat_of_int M) * 100 \<le> fl (rat_of_int j / rat_of_int M) * 100"
    by simp
  then have "fl (fl (rat_of_int i / rat_of_int M) * 100) \<le> fl (fl (rat_of_int j / rat_of_int M) * 100)"
    by (rule fl_mono)
  then have "\<lfloor>fl (fl (rat_of_int i / rat_of_int M) * 100)\<rfloor>
      \<le> \<lfloor>fl (fl (rat_of_int j / rat_of_int M) * 100)\<rfloor>" by (rule floor_mono)
  then show ?thesis using percent_eq(1) [of i M] percent_eq(1) [of j M] assms by simp
qed

lemma percent_range:
  assumes "0 \<le> i" "i < M"
  shows "0 \<le> percent i M \<and> percent i M \<le> 100"
proof -
  have M: "0 < M" using assms by simp
  have "rat_of_int i < rat_of_int M" using assms(2) by (simp only: of_int_less_iff)
  then have "rat_of_int i / rat_of_int M \<le> 1" using M by simp
  then have "fl (rat_of_int i / rat_of_int M) \<le> fl 1" by (rule fl_mono)
  then have "fl (rat_of_int i / rat_of_int M) * 100 \<le> 100" by (simp add: fl_1)
  then have "fl (fl (rat_of_int i / rat_of_int M) * 100) \<le> fl 100" by (rule fl_mono)
  then have "fl (fl (rat_of_int i / rat_of_int M) * 100) \<le> of_int 100" by (simp add: fl_100)
  then have "\<lfloor>fl (fl (rat_of_int i / rat_of_int M) * 100)\<rfloor> \<le> \<lfloor>rat_of_int 100\<rfloor>"
    by (rule floor_mono)
  then have "\<lfloor>fl (fl (rat_of_int i / rat_of_int M) * 100)\<rfloor> \<le> 100"
    by (simp only: floor_of_int)
  moreover have "0 \<le> \<lfloor>fl (fl (rat_of_int i / rat_of_int M) * 100)\<rfloor>"
    using percent_eq(2) [OF assms(1) M] by simp
  ultimately show ?thesis using percent_eq(1) [OF assms(1) M] by simp
qed

lemma percent_less_100:
  assumes "0 \<le> i" "i < M" "M \<le> 2 ^ 53"
  shows "percent i M < 100"
proof -
  have M: "0 < M" using assms by simp
  have Mr: "0 < rat_of_int M" using M by simp
  have "rat_of_int M \<le> rat_of_int (2 ^ 53)" using assms(3) by (simp only: of_int_le_iff)
  then have M53: "rat_of_int M \<le> 2 ^ 53" by simp
  have "i + 1 \<le> M" using assms(2) by simp
  then have "rat_of_int (i + 1) \<le> rat_of_int M" by (simp only: of_int_le_iff)
  then have "rat_of_int i \<le> rat_of_int M - 1" by simp
  then have "rat_of_int i / rat_of_int M \<le> (rat_of_int M - 1) / rat_of_int M"
    using Mr by (simp add: divide_right_mono)
  also have "\<dots> = 1 - 1 / rat_of_int M" using Mr by (simp add: field_simps)
  also have "\<dots> \<le> 1 - 1 / 2 ^ 53"
  proof -
    have "1 / (2 ^ 53 :: rat) \<le> 1 / rat_of_int M" using Mr M53 by (simp add: frac_le)
    then show ?thesis by simp
  qed
  finally have "fl (rat_of_int i / rat_of_int M) \<le> fl (1 - 1 / 2 ^ 53)" by (rule fl_mono)
  then have "fl (rat_of_int i / rat_of_int M) * 100 \<le> 100 * (1 - 1 / 2 ^ 53)"
    by (simp only: fl_pred_1) simp
  then have "fl (fl (rat_of_int i / rat_of_int M) * 100) \<le> fl (100 * (1 - 1 / 2 ^ 53))"
    by (rule fl_mono)
  then have "fl (fl (rat_of_int i / rat_of_int M) * 100) \<le> 100 - 1 / 2 ^ 46"
    by (simp only: fl_pred_100)
  then have "fl (fl (rat_of_int i / rat_of_int M) * 100) < of_int 100" by simp
  then have "\<lfloor>fl (fl (rat_of_int i / rat_of_int M) * 100)\<rfloor> < 100"
    by (simp only: floor_less_iff)
  then show ?thesis using percent_eq(1) [OF assms(1) M] by simp
qed

lemma sorted_percent:
  "sorted (map (\<lambda>n. percent (int n) M) [0..<nat M])"
proof (cases "0 < M")
  case True
  have "\<And>a b. a \<le> b \<Longrightarrow> percent (int a) M \<le> percent (int b) M"
    using True by (intro percent_mono) simp_all
  then show ?thesis by (simp add: sorted_iff_nth_mono)
next
  case False
  then show ?thesis by simp
qed

lemma sorted_progress:
  "sorted (map (\<lambda>n. percent (int n) M) [0..<nat M] @ [100])"
proof -
  have "\<forall>p \<in> set (map (\<lambda>n. percent (int n) M) [0..<nat M]). p \<le> 100"
  proof
    fix p assume "p \<in> set (map (\<lambda>n. percent (int n) M) [0..<nat M])"
    then obtain n where n: "n < nat M" "p = percent (int n) M" by auto
    then have "0 \<le> int n" "int n < M" by simp_all
    then show "p \<le> 100" using percent_range [of "int n" M] n(2) by simp
  qed
  then show ?thesis using sorted_percent [of M] by (simp add: sorted_append)
qed

lemma measure_body_block:
  assumes "measure_body env w ks M i g = (acts, Inr g')"
  shows "\<exists>es. acts = measure_trace M (i, es)"
proof -
  from measure_body_cases [OF assms] obtain cn extra ps where h:
    "acts = Emit (progress_changed (percent (int i) M))
              # Append (Chord cn (chord_quarterLength w)) # extra @ map (note_action w) ps"
    "extra = [] \<or> extra = [Append (Chord cn (1 / 2))]" by auto
  have n: "map (note_action w) ps = map Append (map (\<lambda>p. Note p (note_quarterLength w)) ps)"
    by (simp add: note_action_def)
  from h(2) obtain xs where x: "extra = map Append xs"
  proof
    assume "extra = []"
    then have "extra = map Append []" by simp
    then show ?thesis by (rule that)
  next
    assume "extra = [Append (Chord cn (1 / 2))]"
    then have "extra = map Append [Chord cn (1 / 2)]" by simp
    then show ?thesis by (rule that)
  qed
  have "acts = measure_trace M
      (i, Chord cn (chord_quarterLength w) # xs @ map (\<lambda>p. Note p (note_quarterLength w)) ps)"
    by (simp add: measure_trace_def h(1) x n)
  then show ?thesis by blast
qed

lemma measures_loop_blocks:
  "measures_loop env w ks M i k g = (acts, Inr g') \<Longrightarrow>
     \<exists>blocks. length blocks = k
        \<and> acts = concat (map (measure_trace M) (zip [i..<i + k] blocks))"
proof (induction k arbitrary: i g acts)
  case 0
  then show ?case by simp
next
  case (Suc k)
  obtain a1 r1 where mb: "measure_body env w ks M i g = (a1, r1)"
    by (cases "measure_body env w ks M i g")
  show ?case
  proof (cases r1)
    case (Inl e)
    then have False using Suc.prems mb by simp
    then show ?thesis ..
  next
    case (Inr g1)
    obtain a2 r2 where rec: "measures_loop env w ks M (Suc i) k g1 = (a2, r2)"
      by (cases "measures_loop env w ks M (Suc i) k g1")
    have acts: "acts = a1 @ a2" "r2 = Inr g'" using Suc.prems mb Inr rec by simp_all
    from Suc.IH [OF rec [unfolded acts(2)]] obtain blocks where
      b: "length blocks = k" "a2 = concat (map (measure_trace M) (zip [Suc i..<Suc i + k] blocks))"
      by blast
    from measure_body_block [OF mb [unfolded Inr]] obtain es where
      e: "a1 = measure_trace M (i, es)" by blast
    have u: "[i..<i + Suc k] = i # [Suc i..<Suc i + k]" by (simp add: upt_conv_Cons)
    have "acts = concat (map (measure_trace M) (zip [i..<i + Suc k] (es # blocks)))"
      unfolding u by (simp add: acts(1) e b(2))
    moreover have "length (es # blocks) = Suc k" using b(1) by simp
    ultimately show ?thesis by blast
  qed
qed

lemma progress_values_map: "progress_values (map progress_changed ps) = ps"
  by (induction ps) simp_all

text \<open>Rounding commutes with scaling by a power of two, away from the subnormal range.\<close>

lemma ilog2_unique:
  assumes "2 powi e \<le> x" "x < 2 powi (e + 1)"
  shows "ilog2 x = e"
proof -
  have x: "0 < x" using assms(1) pow2_pos [of e] by linarith
  have "e \<le> ilog2 x" using assms(1) by (rule ilog2_ge)
  moreover have "ilog2 x < e + 1" using x assms(2) by (rule ilog2_less)
  ultimately show ?thesis by simp
qed

lemma fl_scale:
  assumes "0 < x" "- 1022 \<le> ilog2 x"
  shows "fl (x * 2 ^ k) = fl x * 2 ^ k"
proof -
  have xk: "0 < x * 2 ^ k" using assms(1) by simp
  have p: "(2::rat) powi (e + int k) = 2 powi e * 2 ^ k" for e
    by (simp add: power_int_add)
  have "2 powi (ilog2 x + int k) \<le> x * 2 ^ k"
    using ilog2_bounds [OF assms(1)] by (simp add: p)
  moreover have "x * 2 ^ k < 2 powi (ilog2 x + int k + 1)"
    using ilog2_bounds [OF assms(1)] p [of "ilog2 x + 1"] by (simp add: add.commute add.left_commute)
  ultimately have il: "ilog2 (x * 2 ^ k) = ilog2 x + int k" by (rule ilog2_unique)
  have fe: "fexp (x * 2 ^ k) = fexp x + int k" using assms(2) by (simp add: fexp_def il)
  have "x * 2 ^ k / 2 powi (fexp x + int k) = x / 2 powi (fexp x)"
    by (simp add: p)
  then show ?thesis
    by (simp add: fl_pos [OF xk] fl_pos [OF assms(1)] fe p del: of_int_mult)
qed

lemma ilog2_1: "ilog2 1 = 0"
  by (rule ilog2_unique) simp_all

lemma fl_pow2: "fl (2 ^ k) = 2 ^ k"
  using fl_scale [of 1 k] by (simp add: ilog2_1 fl_1)

lemma fl_60_scaled: "fl (60 * 2 ^ k) = 60 * 2 ^ k"
proof -
  have "ilog2 60 = 5" by (rule ilog2_unique) simp_all
  then have "fl (60 * 2 ^ k) = fl 60 * 2 ^ k" by (intro fl_scale) simp_all
  then show ?thesis using fl_int [of 60] by simp
qed

lemma measures_huge:
  "measures_of (GeneratorWorker_init (2 ^ 56) ''ARP'' 60 ''/music/out.mid'' 0) = Inr (2 ^ 54 + 1)"
proof -
  define w where "w = GeneratorWorker_init (2 ^ 56) ''ARP'' 60 ''/music/out.mid'' 0"
  have n: "length_sec w * tempo w = 60 * 2 ^ 56" by (simp add: w_def GeneratorWorker_init_def)
  have f: "fl (rat_of_int (60 * 2 ^ 56)) = 60 * 2 ^ 56" using fl_60_scaled [of 56] by simp
  have "\<bar>60 * 2 ^ 56 :: rat\<bar> < 2 ^ 1024" by simp
  then have "float_of_int (length_sec w * tempo w) = Inr (60 * 2 ^ 56)"
    unfolding n float_of_int_def f by simp
  from measures_of_eq [OF this] have "measures_of w = Inr (\<lfloor>fl (2 ^ 56) / 4\<rfloor> + 1)" by simp
  also have "fl (2 ^ 56) / 4 = rat_of_int (2 ^ 54)" by (simp only: fl_pow2) simp
  finally have "measures_of w = Inr (2 ^ 54 + 1)" by (simp only: floor_of_int)
  then show ?thesis by (simp only: w_def)
qed

text \<open>The reported value is the exact floor or one less, for all loops of at most
  \<open>2 ^ 45\<close> measures.\<close>

lemma fl_rel_err:
  assumes "2 powi (- 1022) \<le> x"
  shows "\<bar>fl x - x\<bar> \<le> x / 2 ^ 53"
proof -
  have "0 < x" using assms pow2_pos [of "- 1022"] by linarith
  moreover have "- 1022 \<le> ilog2 x" using assms by (rule ilog2_ge)
  ultimately show ?thesis by (rule fl_err)
qed

lemma percent_near_floor:
  assumes "0 \<le> i" "i < M" "M \<le> 2 ^ 45"
  shows "(100 * i) div M - 1 \<le> percent i M \<and> percent i M \<le> (100 * i) div M"
proof (cases "i = 0")
  case True
  then show ?thesis using assms by (simp add: percent_def int_truediv_def float_mul_def fl_def int_of_float_def)
next
  case False
  have M: "0 < M" using assms by simp
  have Mr: "0 < rat_of_int M" using M by simp
  define x where "x = rat_of_int i / rat_of_int M"
  define y where "y = rat_of_int (100 * i) / rat_of_int M"
  define q where "q = (100 * i) div M"
  define eps :: rat where "eps = 1 / 2 ^ 53"
  have yx: "y = 100 * x" by (simp add: x_def y_def)
  have "1 \<le> i" using False assms(1) by simp
  then have "rat_of_int 1 \<le> rat_of_int i" by (simp only: of_int_le_iff)
  then have i1: "1 \<le> rat_of_int i" by simp
  have "rat_of_int M \<le> rat_of_int (2 ^ 45)" using assms(3) by (simp only: of_int_le_iff)
  then have M45: "rat_of_int M \<le> 2 ^ 45" by simp
  have "1 / (2 ^ 45 :: rat) \<le> 1 / rat_of_int M" using Mr M45 by (simp add: frac_le)
  also have "\<dots> \<le> x" unfolding x_def using i1 Mr by (simp add: divide_right_mono)
  finally have xlo: "1 / 2 ^ 45 \<le> x" .
  have "rat_of_int i < rat_of_int M" using assms(2) by (simp only: of_int_less_iff)
  then have x1: "x \<le> 1" using Mr by (simp add: x_def)
  have p45: "(2::rat) powi (- 1022) \<le> 1 / 2 ^ 46"
  proof -
    have "(2::rat) powi (- 1022) \<le> 2 powi (- 46)" by (intro power_int_increasing) simp_all
    then show ?thesis by (simp add: power_int_minus field_simps)
  qed
  have "2 powi (- 1022) \<le> x" using p45 xlo by simp
  then have ea: "\<bar>fl x - x\<bar> \<le> x / 2 ^ 53" by (rule fl_rel_err)
  then have ea': "\<bar>fl x - x\<bar> \<le> eps" using x1 by (simp add: eps_def field_simps)
  have a1: "fl x \<le> 1" using fl_mono [OF x1] by (simp add: fl_1)
  define b where "b = fl x * 100"
  have b100: "b \<le> 100" using a1 by (simp add: b_def)
  have xpos: "0 < x" using xlo by (simp add: less_le_trans [of 0 "1 / 2 ^ 45" x])
  have "x / 2 ^ 53 \<le> x / 2" using xpos by (simp add: field_simps)
  then have "x / 2 \<le> fl x" using ea by linarith
  then have "1 / 2 ^ 46 \<le> fl x" using xlo by simp
  then have "1 / 2 ^ 46 \<le> b" by (simp add: b_def)
  then have "2 powi (- 1022) \<le> b" using p45 by simp
  then have "\<bar>fl b - b\<bar> \<le> b / 2 ^ 53" by (rule fl_rel_err)
  then have eb: "\<bar>fl b - b\<bar> \<le> 100 * eps" using b100 by (simp add: eps_def field_simps)
  have "\<bar>b - y\<bar> \<le> 100 * eps" using ea' by (simp add: b_def yx abs_le_iff)
  then have ec: "\<bar>fl b - y\<bar> \<le> 200 * eps" using eb by linarith
  have qy: "rat_of_int q \<le> y" unfolding q_def y_def using Mr
    by (metis floor_divide_of_int_eq of_int_floor_le)
  have "(100 * i) mod M \<le> M - 1" using M by simp
  then have "100 * i \<le> q * M + (M - 1)" unfolding q_def
    by (metis add_left_mono div_mult_mod_eq)
  then have "rat_of_int (100 * i) \<le> rat_of_int (q * M + (M - 1))" by (simp only: of_int_le_iff)
  then have "rat_of_int (100 * i) \<le> (rat_of_int q + 1) * rat_of_int M - 1" by (simp add: algebra_simps)
  then have "y \<le> ((rat_of_int q + 1) * rat_of_int M - 1) / rat_of_int M"
    unfolding y_def using Mr by (simp add: divide_right_mono)
  also have "\<dots> = rat_of_int q + 1 - 1 / rat_of_int M" using Mr by (simp add: field_simps)
  finally have yq: "y \<le> rat_of_int q + 1 - 1 / rat_of_int M" .
  have "200 * eps < 1 / 2 ^ 45" by (simp add: eps_def)
  also have "\<dots> \<le> 1 / rat_of_int M" using Mr M45 by (simp add: frac_le)
  finally have small: "200 * eps < 1 / rat_of_int M" .
  have hi: "fl b < rat_of_int q + 1" using ec yq small by linarith
  have "200 * eps \<le> 1" by (simp add: eps_def)
  then have "rat_of_int q - 1 \<le> fl b" using ec qy by linarith
  then have lo: "rat_of_int (q - 1) \<le> fl b" by simp
  have "\<lfloor>fl b\<rfloor> \<le> q" using hi by (simp add: floor_le_iff)
  moreover have "q - 1 \<le> \<lfloor>fl b\<rfloor>" using lo by (simp only: le_floor_iff)
  moreover have "percent i M = \<lfloor>fl b\<rfloor>"
    using percent_eq(1) [OF assms(1) M] by (simp add: b_def x_def)
  ultimately show ?thesis by (simp add: q_def)
qed

lemma percent_29_50: "percent 29 50 = 57"
  by code_simp

lemma percent_huge: "percent (2 ^ 54) (2 ^ 54 + 1) = 100"
  by code_simp

section \<open>Clamping of the duration\<close>

text \<open>
  C3, as stated: the engine clamps every raw duration into the interval from 1 to 60.
  The constructor only applies \<open>min length_sec 60\<close>; there is no lower clamp, so a raw
  value below 1 is kept as it is.
\<close>

theorem length_not_raised_to_one:
  "length_sec (GeneratorWorker_init 120 ''PAD'' 0 ''/music/out.mid'' 0) = 0
   \<and> \<not> (1 \<le> length_sec (GeneratorWorker_init 120 ''PAD'' 0 ''/music/out.mid'' 0))"
  by (simp add: GeneratorWorker_init_def)

text \<open>
  C3, amended: the engine caps the raw duration at 60 and changes nothing else: the
  stored duration is \<open>min raw 60\<close>, never above 60, equal to the raw value whenever
  that is at most 60 (also below 1), and 60 for the raw value 10000.
\<close>

theorem length_capped_at_60:
  "length_sec (GeneratorWorker_init t p l s c) = min l 60
   \<and> length_sec (GeneratorWorker_init t p l s c) \<le> 60
   \<and> (l \<le> 60 \<longrightarrow> length_sec (GeneratorWorker_init t p l s c) = l)
   \<and> length_sec (GeneratorWorker_init t p 10000 s c) = 60"
  by (simp add: GeneratorWorker_init_def)

theorem length_capped_at_60_witness:
  "(- 5 :: int) \<le> 60
   \<and> length_sec (GeneratorWorker_init 120 ''ARP'' (- 5) ''/music/out.mid'' 3) = - 5
   \<and> length_sec (GeneratorWorker_init 120 ''ARP'' 10000 ''/music/out.mid'' 3) = 60"
  using length_capped_at_60 [of 120 "''ARP''" "- 5" "''/music/out.mid''" 3]
  by simp

section \<open>The validator's range check\<close>

text \<open>
  C8, as stated: a duration outside 1 to 60 fails with the message \<open>length out of range\<close>.
  The message in the code is \<open>Length out of range\<close>, with a capital letter, and it
  is only reached when the tempo text has parsed: the tempo is converted first, and
  its \<open>ValueError\<close> is the one reported when it fails.
\<close>

theorem validator_message_differs:
  "start_generation (Inr 120) (Inr 0) ''/music/out.mid'' ''ARP'' 0
     = Warning ''Input Error'' ''Length out of range''
   \<and> ''Length out of range'' \<noteq> ''length out of range''
   \<and> start_generation (Inl ''invalid literal for int() with base 10: abc'') (Inr 0)
         ''/music/out.mid'' ''ARP'' 0
     = Warning ''Input Error'' ''invalid literal for int() with base 10: abc''"
  by (simp add: start_generation_def)

text \<open>
  C8, amended: when the tempo text parses and the duration is outside 1 to 60, the
  validator shows the warning \<open>Length out of range\<close> and returns; and whatever the
  tempo text is, no worker is constructed or started for such a duration, so no
  generation work and no side effect of it takes place.
\<close>

theorem validator_rejects_length:
  "l < 1 \<or> 60 < l \<Longrightarrow>
     start_generation (Inr t) (Inr l) s p c = Warning ''Input Error'' ''Length out of range''
     \<and> (\<forall>w. start_generation tempo_in (Inr l) s p c \<noteq> Started w)"
  by (auto simp: start_generation_def split: sum.splits)

theorem validator_rejects_length_witness:
  "((61::int) < 1 \<or> (60::int) < 61)
   \<and> start_generation (Inr 120) (Inr 61) ''/music/out.mid'' ''PAD'' 3
       = Warning ''Input Error'' ''Length out of range''"
  using validator_rejects_length [of 61 120 "''/music/out.mid''" "''PAD''" 3]
  by simp

section \<open>Chord durations\<close>



section \<open>Note durations\<close>



section \<open>The floors of the durations\<close>

text \<open>
  C6: in the elements appended by any run, whatever the craziness, every chord (the
  accent chords included) lasts at least a quarter and every note at least an eighth
  of a quarter note.
\<close>

theorem duration_floors:
  "(\<forall>ps d. Chord ps d \<in> set (appended (fst (run env w g fs))) \<longrightarrow> 1 / 4 \<le> d)
   \<and> (\<forall>p d. Note p d \<in> set (appended (fst (run env w g fs))) \<longrightarrow> 1 / 8 \<le> d)"
proof -
  have "list_all duration_ok (appended (fst (run env w g fs)))"
    using run_durations [of env w g fs] by simp
  then have a: "\<forall>e \<in> set (appended (fst (run env w g fs))). duration_ok e"
    by (simp add: list_all_iff)
  show ?thesis
  proof (intro conjI allI impI)
    fix ps d assume "Chord ps d \<in> set (appended (fst (run env w g fs)))"
    then have "duration_ok (Chord ps d)" using a by blast
    then show "1 / 4 \<le> d" by simp
  next
    fix p d assume "Note p d \<in> set (appended (fst (run env w g fs)))"
    then have "duration_ok (Note p d)" using a by blast
    then show "1 / 8 \<le> d" by simp
  qed
qed

theorem duration_floors_witness:
  "Chord [60, 64, 67] (1 / 2) \<in> set (appended (fst (run demo_env demo_worker [] demo_fs)))
   \<and> Note 64 (1 / 2) \<in> set (appended (fst (run demo_env demo_worker [] demo_fs)))
   \<and> (1 / 4 :: rat) \<le> 1 / 2 \<and> (1 / 8 :: rat) \<le> 1 / 2"
proof -
  have c: "Chord [60, 64, 67] (1 / 2) \<in> set (appended (fst (run demo_env demo_worker [] demo_fs)))"
    and n: "Note 64 (1 / 2) \<in> set (appended (fst (run demo_env demo_worker [] demo_fs)))"
    by (simp_all add: demo_run demo_measure_def)
  from duration_floors [of demo_env demo_worker "[]" demo_fs] c n show ?thesis by blast
qed

section \<open>The arpeggio\<close>

text \<open>
  C7: in a measure of the ARP pattern the melodic notes are three, the note number
  \<open>k\<close> being the chord tone at index \<open>k mod 3\<close> of the triad of that measure (the one
  pitch list of the measure's chords), so that every melodic pitch lies in the triad.
  A measure appends nothing only when it ends by an exception before its chord.
\<close>

theorem arpeggio_pitches:
  "pattern w = ''ARP'' \<Longrightarrow> measure_body env w ks M i g = (acts, r) \<Longrightarrow>
     (appended acts = [] \<and> (\<exists>e. r = Inl e))
     \<or> (\<exists>cn. length cn = 3
           \<and> set (chord_pitches (appended acts)) = {cn}
           \<and> note_pitches (appended acts) = map (\<lambda>k. cn ! (k mod 3)) [0, 1, 2]
           \<and> set (note_pitches (appended acts)) \<subseteq> set cn)"
proof -
  assume a: "pattern w = ''ARP''" and mb: "measure_body env w ks M i g = (acts, r)"
  from measure_body_cases [OF mb] show ?thesis
  proof
    assume "acts = [Emit (progress_changed (percent (int i) M))] \<and> (\<exists>e. r = Inl e)"
    then show ?thesis by simp
  next
    assume "\<exists>cn extra ps. length cn = 3
           \<and> acts = Emit (progress_changed (percent (int i) M))
                  # Append (Chord cn (chord_quarterLength w)) # extra @ map (note_action w) ps
           \<and> (extra = [] \<or> extra = [Append (Chord cn (1 / 2))])
           \<and> (pattern w = ''ARP'' \<longrightarrow> ps = [cn ! 0, cn ! 1, cn ! 2])"
    then obtain cn extra ps where h: "length cn = 3"
      "acts = Emit (progress_changed (percent (int i) M))
                  # Append (Chord cn (chord_quarterLength w)) # extra @ map (note_action w) ps"
      "extra = [] \<or> extra = [Append (Chord cn (1 / 2))]"
      "ps = [cn ! 0, cn ! 1, cn ! 2]" using a by blast
    have cp: "set (chord_pitches (appended acts)) = {cn}"
      using h(2,3) by (auto simp: appended_append appended_notes chord_pitches_notes)
    have np: "note_pitches (appended acts) = ps"
      using h(2,3) by (auto simp: appended_append appended_notes note_pitches_notes)
    have "note_pitches (appended acts) = map (\<lambda>k. cn ! (k mod 3)) [0, 1, 2]"
      using np h(4) by simp
    moreover have "set (note_pitches (appended acts)) \<subseteq> set cn"
      using np h(1,4) by simp
    ultimately show ?thesis using h(1) cp by blast
  qed
qed

theorem arpeggio_pitches_witness:
  "pattern demo_worker = ''ARP''
   \<and> note_pitches (appended (demo_measure 0)) = [60, 64, 67]
   \<and> chord_pitches (appended (demo_measure 0)) = [[60, 64, 67], [60, 64, 67]]
   \<and> (\<exists>cn. length cn = 3 \<and> set (chord_pitches (appended (demo_measure 0))) = {cn}
           \<and> note_pitches (appended (demo_measure 0)) = map (\<lambda>k. cn ! (k mod 3)) [0, 1, 2]
           \<and> set (note_pitches (appended (demo_measure 0))) \<subseteq> set cn)"
proof -
  have p: "pattern demo_worker = ''ARP''" by (simp add: demo_fields)
  have mb: "measure_body demo_env demo_worker ''C'' 2 0 [] = (demo_measure 0, Inr [])"
    using demo_measure_body [of 0] by (simp add: demo_percent)
  have ne: "appended (demo_measure 0) \<noteq> []" by (simp add: demo_measure_def)
  from arpeggio_pitches [OF p mb] ne
  have "\<exists>cn. length cn = 3 \<and> set (chord_pitches (appended (demo_measure 0))) = {cn}
           \<and> note_pitches (appended (demo_measure 0)) = map (\<lambda>k. cn ! (k mod 3)) [0, 1, 2]
           \<and> set (note_pitches (appended (demo_measure 0))) \<subseteq> set cn"
    by blast
  then show ?thesis using p by (simp add: demo_measure_def)
qed

section \<open>The export\<close>




section \<open>The staging path\<close>

text \<open>
  C10: for every configuration and every run, the staging file is the file named
  \<open>midgen_temp.mid\<close> in the temporary directory of the environment: the path is a
  function of the environment alone, not of the worker; a run changes no file other
  than this one and its destination; and whatever data is staged, on whatever file
  system, is written to this path.  So any two runs in one environment stage into the
  same file.
\<close>

theorem staging_path_is_fixed:
  "run env w g fs = (tr, fs') \<Longrightarrow>
     tmp_path env = path_join env (gettempdir env) ''midgen_temp.mid''
     \<and> (\<forall>q. files fs' q \<noteq> files fs q
            \<longrightarrow> q = path_join env (gettempdir env) ''midgen_temp.mid'' \<or> q = save_path w)
     \<and> (\<forall>d fs0 fs1. write_staging env d fs0 = (None, fs1)
            \<longrightarrow> files fs1 (path_join env (gettempdir env) ''midgen_temp.mid'') = Some d)"
proof -
  assume r: "run env w g fs = (tr, fs')"
  have t: "tmp_path env = path_join env (gettempdir env) ''midgen_temp.mid''"
    by (simp add: tmp_path_def)
  have "\<forall>q. q \<noteq> tmp_path env \<and> q \<noteq> save_path w \<longrightarrow> files fs' q = files fs q"
    using run_outcome [OF r] by blast
  moreover have "\<forall>d fs0 fs1. write_staging env d fs0 = (None, fs1)
            \<longrightarrow> files fs1 (tmp_path env) = Some d"
    using write_staging_effect by blast
  ultimately show ?thesis unfolding t by blast
qed

theorem staging_path_is_fixed_witness:
  "files (snd (run demo_env demo_worker [] demo_fs)) ''/music/out.mid''
     \<noteq> files demo_fs ''/music/out.mid''
   \<and> path_join demo_env (gettempdir demo_env) ''midgen_temp.mid'' = ''/tmp/midgen_temp.mid''
   \<and> save_path demo_worker = ''/music/out.mid''
   \<and> write_staging demo_env ''abc'' demo_fs
       = (None, snd (write_staging demo_env ''abc'' demo_fs))
   \<and> files (snd (write_staging demo_env ''abc'' demo_fs)) ''/tmp/midgen_temp.mid'' = Some ''abc''"
proof -
  have r: "run demo_env demo_worker [] demo_fs
      = (fst (run demo_env demo_worker [] demo_fs), snd (run demo_env demo_worker [] demo_fs))"
    by simp
  have ok: "last (emitted (fst (run demo_env demo_worker [] demo_fs))) = finished (save_path demo_worker)"
    by (simp add: demo_run demo_measure_def demo_fields)
  have ch: "files (snd (run demo_env demo_worker [] demo_fs)) ''/music/out.mid''
     \<noteq> files demo_fs ''/music/out.mid''"
    using run_outcome [OF r] ok by (simp add: demo_fields demo_fs_def)
  have pj: "path_join demo_env (gettempdir demo_env) ''midgen_temp.mid'' = ''/tmp/midgen_temp.mid''"
    by (simp add: demo_env_def)
  have ws: "write_staging demo_env ''abc'' demo_fs
       = (None, snd (write_staging demo_env ''abc'' demo_fs))"
    by (simp add: write_staging_def midi_open_def midi_write_def demo_env_def demo_fs_def)
  from staging_path_is_fixed [OF r] ws
  have "files (snd (write_staging demo_env ''abc'' demo_fs)) ''/tmp/midgen_temp.mid'' = Some ''abc''"
    unfolding pj by blast
  then show ?thesis using ch pj ws by (simp add: demo_fields)
qed

section \<open>The measure count\<close>



section \<open>Progress reports\<close>

text \<open>
  C1, as stated: the engine reports \<open>floor(i / M * 100)\<close> at the start of measure \<open>i\<close>,
  and no report in the loop is 100.  The engine computes \<open>int(i / M * 100)\<close> in double
  arithmetic.  With tempo 240 and duration 49 there are 50 measures, and at measure 29
  the report is 57, while \<open>29 / 50 * 100\<close> is 58: the quotient is rounded to the double
  just below 0.58, and the product to the double just below 58.  And with tempo
  \<open>2 ^ 56\<close> and duration 60 there are \<open>2 ^ 54 + 1\<close> measures, and the quotient for the
  last one rounds to 1, so that the report in the loop is 100.
\<close>

theorem progress_not_exact_floor:
  "measures_of (GeneratorWorker_init 240 ''ARP'' 49 ''/music/out.mid'' 0) = Inr 50
   \<and> percent 29 50 = 57
   \<and> \<lfloor>rat_of_int 29 / rat_of_int 50 * 100\<rfloor> = 58
   \<and> measures_of (GeneratorWorker_init (2 ^ 56) ''ARP'' 60 ''/music/out.mid'' 0)
       = Inr (2 ^ 54 + 1)
   \<and> percent (2 ^ 54) (2 ^ 54 + 1) = 100"
proof -
  have "measures_of (GeneratorWorker_init 240 ''ARP'' 49 ''/music/out.mid'' 0)
      = Inr (spec_measures 49 240)"
    using measures_exact [of "GeneratorWorker_init 240 ''ARP'' 49 ''/music/out.mid'' 0"]
    by (simp add: GeneratorWorker_init_def)
  then have "measures_of (GeneratorWorker_init 240 ''ARP'' 49 ''/music/out.mid'' 0) = Inr 50"
    by (simp add: spec_measures_div)
  moreover have "\<lfloor>rat_of_int 29 / rat_of_int 50 * 100\<rfloor> = 58" by simp
  ultimately show ?thesis using percent_29_50 percent_huge measures_huge by blast
qed

text \<open>
  C1, amended: on every successful run with at most \<open>2 ^ 53\<close> measures, the trace is
  the header, then for each measure \<open>i\<close> from 0 to \<open>M - 1\<close> the progress report
  \<open>int(i / M * 100)\<close>, evaluated in double arithmetic, followed by the appends of that
  measure, then the report 100 and the success signal.  The reported values are
  non-decreasing, those in the loop lie between 0 and 99, and the last one is 100.
  For at most \<open>2 ^ 45\<close> measures the value reported for measure \<open>i\<close> is the exact
  \<open>floor(100 * i / M)\<close> or one less.
\<close>

theorem progress_reports:
  "run env w g fs = (tr, fs') \<Longrightarrow> last (emitted tr) = finished (save_path w) \<Longrightarrow>
   measures_of w = Inr M \<Longrightarrow> M \<le> 2 ^ 53 \<Longrightarrow>
     (\<exists>ks blocks. length blocks = nat M
         \<and> tr = header_of w ks @ concat (map (measure_trace M) (zip [0..<nat M] blocks))
                @ [Emit (progress_changed 100), Emit (finished (save_path w))])
     \<and> progress_values (emitted tr) = map (\<lambda>n. percent (int n) M) [0..<nat M] @ [100]
     \<and> sorted (progress_values (emitted tr))
     \<and> (\<forall>n<nat M. percent (int n) M = \<lfloor>float_mul (int_truediv (int n) M) 100\<rfloor>
            \<and> 0 \<le> percent (int n) M \<and> percent (int n) M < 100)
     \<and> (M \<le> 2 ^ 45 \<longrightarrow>
          (\<forall>n<nat M. (100 * int n) div M - 1 \<le> percent (int n) M
                 \<and> percent (int n) M \<le> (100 * int n) div M))"
proof -
  assume r: "run env w g fs = (tr, fs')"
    and ok: "last (emitted tr) = finished (save_path w)"
    and m: "measures_of w = Inr M" and b: "M \<le> 2 ^ 53"
  from run_cases [of g w env fs] obtain ks g0 where
    c: "(\<exists>e. measures_of w = Inl e
          \<and> run env w g fs = (header_of w ks @ [Emit (error (str_exn e))], fs))
    \<or> (\<exists>M acts e. measures_of w = Inr M
          \<and> measures_loop env w ks M 0 (nat M) g0 = (acts, Inl e)
          \<and> run env w g fs = (header_of w ks @ acts @ [Emit (error (str_exn e))], fs))
    \<or> (\<exists>M acts g1 oe fs'. measures_of w = Inr M
          \<and> measures_loop env w ks M 0 (nat M) g0 = (acts, Inr g1)
          \<and> export_midi env w (appended (header_of w ks @ acts @ [Emit (progress_changed 100)])) fs
              = (oe, fs')
          \<and> run env w g fs =
              (header_of w ks @ acts @ [Emit (progress_changed 100),
                 Emit (case oe of None \<Rightarrow> finished (save_path w) | Some e \<Rightarrow> error (str_exn e))],
               fs'))"
    by blast
  have "\<exists>acts g1. measures_loop env w ks M 0 (nat M) g0 = (acts, Inr g1)
          \<and> tr = header_of w ks @ acts
                 @ [Emit (progress_changed 100), Emit (finished (save_path w))]"
    using c
  proof (elim disjE exE conjE)
    fix e assume "run env w g fs = (header_of w ks @ [Emit (error (str_exn e))], fs)"
    then have "last (emitted tr) = error (str_exn e)"
      using r by (auto simp: emitted_append)
    then show ?thesis using ok by simp
  next
    fix M' acts e
    assume "run env w g fs = (header_of w ks @ acts @ [Emit (error (str_exn e))], fs)"
    then have "last (emitted tr) = error (str_exn e)"
      using r by (auto simp: emitted_append)
    then show ?thesis using ok by simp
  next
    fix M' acts g1 oe fs1
    assume m': "measures_of w = Inr M'"
      and ml: "measures_loop env w ks M' 0 (nat M') g0 = (acts, Inr g1)"
      and "run env w g fs =
              (header_of w ks @ acts @ [Emit (progress_changed 100),
                 Emit (case oe of None \<Rightarrow> finished (save_path w) | Some e \<Rightarrow> error (str_exn e))],
               fs1)"
    then have t: "tr = header_of w ks @ acts @ [Emit (progress_changed 100),
                 Emit (case oe of None \<Rightarrow> finished (save_path w) | Some e \<Rightarrow> error (str_exn e))]"
      using r by simp
    have "last (emitted tr)
        = (case oe of None \<Rightarrow> finished (save_path w) | Some e \<Rightarrow> error (str_exn e))"
      by (simp add: t emitted_append)
    then have "oe = None" using ok by (cases oe) simp_all
    then have "tr = header_of w ks @ acts
                 @ [Emit (progress_changed 100), Emit (finished (save_path w))]"
      using t by simp
    moreover have "M' = M" using m m' by simp
    ultimately show ?thesis using ml by blast
  qed
  then obtain acts g1 where ml: "measures_loop env w ks M 0 (nat M) g0 = (acts, Inr g1)"
    and t: "tr = header_of w ks @ acts
                 @ [Emit (progress_changed 100), Emit (finished (save_path w))]"
    by blast
  from measures_loop_blocks [OF ml] obtain blocks where
    bl: "length blocks = nat M"
        "acts = concat (map (measure_trace M) (zip [0..<nat M] blocks))" by auto
  have 1: "\<exists>ks blocks. length blocks = nat M
         \<and> tr = header_of w ks @ concat (map (measure_trace M) (zip [0..<nat M] blocks))
                @ [Emit (progress_changed 100), Emit (finished (save_path w))]"
    using t bl by blast
  from measures_loop_emitted [OF ml] have
    "emitted acts = map (\<lambda>n. progress_changed (percent (int n) M)) [0..<nat M]" by auto
  then have "emitted tr = map progress_changed (map (\<lambda>n. percent (int n) M) [0..<nat M] @ [100])
      @ [finished (save_path w)]"
    by (simp add: t emitted_append emitted_header)
  then have 2: "progress_values (emitted tr) = map (\<lambda>n. percent (int n) M) [0..<nat M] @ [100]"
    by (simp only: progress_values_append progress_values_map) simp
  have 3: "sorted (progress_values (emitted tr))"
    unfolding 2 by (rule sorted_progress)
  have 4: "\<forall>n<nat M. percent (int n) M = \<lfloor>float_mul (int_truediv (int n) M) 100\<rfloor>
            \<and> 0 \<le> percent (int n) M \<and> percent (int n) M < 100"
  proof (intro allI impI)
    fix n assume "n < nat M"
    then have n: "0 \<le> int n" "int n < M" by simp_all
    then have M: "0 < M" by simp
    show "percent (int n) M = \<lfloor>float_mul (int_truediv (int n) M) 100\<rfloor>
            \<and> 0 \<le> percent (int n) M \<and> percent (int n) M < 100"
      using percent_eq(1) [OF n(1) M] percent_range [OF n] percent_less_100 [OF n b]
      by (simp add: float_mul_def int_truediv_def)
  qed
  have 5: "M \<le> 2 ^ 45 \<longrightarrow>
          (\<forall>n<nat M. (100 * int n) div M - 1 \<le> percent (int n) M
                 \<and> percent (int n) M \<le> (100 * int n) div M)"
  proof (intro allI impI)
    fix n assume s: "M \<le> 2 ^ 45" and "n < nat M"
    then have n: "0 \<le> int n" "int n < M" by simp_all
    show "(100 * int n) div M - 1 \<le> percent (int n) M
                 \<and> percent (int n) M \<le> (100 * int n) div M"
      using n s by (rule percent_near_floor)
  qed
  show ?thesis using 1 2 3 4 5 by blast
qed

theorem progress_reports_witness:
  "last (emitted (fst (run demo_env demo_worker [] demo_fs))) = finished (save_path demo_worker)
   \<and> measures_of demo_worker = Inr 2 \<and> (2::int) \<le> 2 ^ 53 \<and> (2::int) \<le> 2 ^ 45
   \<and> progress_values (emitted (fst (run demo_env demo_worker [] demo_fs))) = [0, 50, 100]"
proof -
  have r: "run demo_env demo_worker [] demo_fs
      = (fst (run demo_env demo_worker [] demo_fs), snd (run demo_env demo_worker [] demo_fs))"
    by simp
  have ok: "last (emitted (fst (run demo_env demo_worker [] demo_fs))) = finished (save_path demo_worker)"
    by (simp add: demo_run demo_measure_def demo_fields)
  have b: "(2::int) \<le> 2 ^ 53" by simp
  from progress_reports [OF r ok demo_measures b]
  have "progress_values (emitted (fst (run demo_env demo_worker [] demo_fs)))
      = map (\<lambda>n. percent (int n) 2) [0..<nat 2] @ [100]" by blast
  also have "\<dots> = [0, 50, 100]" by (simp add: upt_rec demo_percent)
  finally show ?thesis using ok demo_measures by simp
qed

end
